theory Spec2Isabelle
  imports Main "HOL-Library.Word"
begin

unbundle bit_operations_syntax

section \<open>Buffers, arrays and the 5-bit word stream\<close>

text \<open>
  A Node \<open>Buffer\<close> is a list of bytes; the data part of a bech32 string is an array of
  5-bit words, which is what \<open>bech32.decode\<close> hands to the decoder.
\<close>

type_synonym byte = "8 word"
type_synonym bytes = "byte list"
type_synonym word5 = "5 word"

text \<open>
  \<open>Array.prototype.slice(start, end)\<close> (and \<open>Buffer.prototype.slice\<close>): a negative index
  counts from the end, every index is clamped to the array, and an end before the start
  gives the empty array. It never raises.
\<close>

definition rel_index :: "nat \<Rightarrow> int \<Rightarrow> nat" where
  "rel_index len i = (if i < 0 then nat (max (int len + i) 0) else min (nat i) len)"

definition slice :: "'a list \<Rightarrow> int \<Rightarrow> int \<Rightarrow> 'a list" where
  "slice xs start end =
     (let k = rel_index (length xs) start; final = rel_index (length xs) end
      in take (final - k) (drop k xs))"

subsection \<open>bech32-util: convertWords\<close>

text \<open>
  Modelled from the spec: \<open>bech32Util.convertWords(data, inBits, outBits, pad)\<close> of
  \<open>lib/bech32-util.js\<close>, which is not among the sources. The spec fixes it as the canonical
  bech32 convert-bits regrouping: the input values are appended MSB-first to a bit
  accumulator, every complete group of \<open>outBits\<close> bits is emitted, and at the end a
  partial group is emitted zero-padded on the low bits when \<open>pad\<close> is set and discarded
  otherwise.
\<close>

function emit_groups :: "nat \<Rightarrow> nat \<Rightarrow> nat \<Rightarrow> nat list \<times> nat" where
  "emit_groups outBits value bits =
     (if 0 < outBits \<and> outBits \<le> bits
      then (let bits' = bits - outBits;
                (out, rest) = emit_groups outBits value bits'
            in ((value div 2 ^ bits') mod 2 ^ outBits # out, rest))
      else ([], bits))"
  by pat_completeness auto
termination
  by (relation "measure (\<lambda>(outBits, value, bits). bits)") auto

declare emit_groups.simps [simp del]

fun convert_loop :: "nat \<Rightarrow> nat \<Rightarrow> nat \<Rightarrow> nat \<Rightarrow> nat list \<Rightarrow> nat list \<times> nat \<times> nat" where
  "convert_loop inBits outBits value bits [] = ([], value, bits)"
| "convert_loop inBits outBits value bits (d # ds) =
     (let value' = (value * 2 ^ inBits + d) mod 2 ^ (inBits + outBits);
          (out, bits') = emit_groups outBits value' (bits + inBits);
          (outs, v, b) = convert_loop inBits outBits value' bits' ds
      in (out @ outs, v, b))"

definition convertWords :: "nat list \<Rightarrow> nat \<Rightarrow> nat \<Rightarrow> bool \<Rightarrow> nat list" where
  "convertWords data inBits outBits pad =
     (let (out, value, bits) = convert_loop inBits outBits 0 0 data
      in if pad \<and> 0 < bits
         then out @ [(value * 2 ^ (outBits - bits)) mod 2 ^ outBits]
         else out)"

subsection \<open>WordCursor\<close>

record WordCursor =
  words :: "word5 list"
  position :: int

definition new_WordCursor :: "word5 list \<Rightarrow> WordCursor" where
  "new_WordCursor ws = \<lparr>words = ws, position = 0\<rparr>"

definition wordsRemaining :: "WordCursor \<Rightarrow> int" where
  "wordsRemaining c = int (length (words c)) - position c"

text \<open>
  \<open>readUIntBE\<close>: the loop body is \<open>val <<= 5; val |= word\<close>. Both operators work on the
  32-bit two's complement image of their operands and give a signed 32-bit result, so the
  accumulator is a \<open>32 word\<close> and the returned number is its signed reading.
\<close>

definition fold_words :: "word5 list \<Rightarrow> 32 word" where
  "fold_words ws = foldl (\<lambda>val w. push_bit 5 val OR ucast w) 0 ws"

definition readUIntBE :: "WordCursor \<Rightarrow> int \<Rightarrow> int \<times> WordCursor" where
  "readUIntBE c numWords =
     (let ws = slice (words c) (position c) (position c + numWords)
      in (sint (fold_words ws), c\<lparr>position := position c + numWords\<rparr>))"

definition readBytes :: "WordCursor \<Rightarrow> int \<Rightarrow> bool \<Rightarrow> bytes \<times> WordCursor" where
  "readBytes c numWords pad =
     (let ws = slice (words c) (position c) (position c + numWords)
      in (map of_nat (convertWords (map unat ws) 5 8 pad),
          c\<lparr>position := position c + numWords\<rparr>))"

text \<open>The value the claim expects of a read: the unsigned big-endian fold.\<close>

definition be_fold :: "word5 list \<Rightarrow> nat" where
  "be_fold ws = foldl (\<lambda>v w. v * 32 + unat w) 0 ws"

section \<open>Errors\<close>

text \<open>Every \<open>throw\<close> of the sources, and the failures of the collaborators they call.\<close>

datatype error =
    InvalidPrefix
  | InvalidAmount
  | InvalidCharacter
  | InvalidNetwork
  | SignatureInvalid
  | IndexOutOfRange
  | RecoveryFailed
  | WordLenRequired
  | CannotProcessUnknownField
  | ValueOutOfRange
  | SigningFailed
  | UnsupportedValue
  | ACT1_READ_FAILED
  | ACT1_BAD_VERSION
  | ACT2_READ_FAILED
  | ACT2_BAD_VERSION
  | ACT3_READ_FAILED
  | ACT3_BAD_VERSION
  | EcdhFailed
  | DecryptFailed

section \<open>The prefix parser\<close>

text \<open>
  Modelled from the spec: \<open>hrpToPico\<close> of \<open>lib/hrp-pico.js\<close>, which is not among the
  sources. The spec's multiplier table: no multiplier is \<open>10^12\<close> pico-units, \<open>m\<close> is
  \<open>10^9\<close>, \<open>u\<close> is \<open>10^6\<close>, \<open>n\<close> is \<open>10^3\<close>, \<open>p\<close> is \<open>1\<close>; an unknown multiplier letter
  is an error.
\<close>

definition hrpToPico :: "char option \<Rightarrow> error + int" where
  "hrpToPico multiplier =
     (case multiplier of
        None \<Rightarrow> Inr 1000000000000
      | Some c \<Rightarrow>
          if c = CHR ''m'' then Inr 1000000000
          else if c = CHR ''u'' then Inr 1000000
          else if c = CHR ''n'' then Inr 1000
          else if c = CHR ''p'' then Inr 1
          else Inl InvalidAmount)"

record parse_state =
  ps_network :: string
  ps_value :: string
  ps_multiplier :: "char option"
  hasNetwork :: bool
  hasAmount :: bool

definition is_lower :: "char \<Rightarrow> bool" where
  "is_lower c = (97 \<le> (of_char c :: nat) \<and> (of_char c :: nat) \<le> 122)"

definition is_digit :: "char \<Rightarrow> bool" where
  "is_digit c = (48 \<le> (of_char c :: nat) \<and> (of_char c :: nat) \<le> 57)"

text \<open>One round of the \<open>for\<close> loop of \<open>parsePrefix\<close>: its three \<open>if\<close> blocks in order.\<close>

definition parse_char :: "parse_state \<Rightarrow> char \<Rightarrow> error + parse_state" where
  "parse_char st c =
     (let st1 = (if \<not> hasNetwork st
                 then (if is_lower c then st\<lparr>ps_network := ps_network st @ [c]\<rparr>
                       else st\<lparr>hasNetwork := True\<rparr>)
                 else st)
      in case (if hasNetwork st1 \<and> \<not> hasAmount st1
               then (if is_digit c then Inr (st1\<lparr>ps_value := ps_value st1 @ [c]\<rparr>)
                     else if ps_value st1 \<noteq> [] then Inr (st1\<lparr>hasAmount := True\<rparr>)
                     else Inl InvalidAmount)
               else Inr st1) of
           Inl e \<Rightarrow> Inl e
         | Inr st2 \<Rightarrow>
             if hasAmount st2
             then (if is_lower c then Inr (st2\<lparr>ps_multiplier := Some c\<rparr>)
                   else Inl InvalidCharacter)
             else Inr st2)"

fun parse_loop :: "parse_state \<Rightarrow> string \<Rightarrow> error + parse_state" where
  "parse_loop st [] = Inr st"
| "parse_loop st (c # cs) =
     (case parse_char st c of Inl e \<Rightarrow> Inl e | Inr st' \<Rightarrow> parse_loop st' cs)"

text \<open>\<open>new BN(value)\<close> on a string of decimal digits.\<close>

definition dec_value :: "string \<Rightarrow> int" where
  "dec_value ds = foldl (\<lambda>v c. 10 * v + (int (of_char c) - 48)) 0 ds"

definition isValidNetwork :: "string \<Rightarrow> bool" where
  "isValidNetwork network =
     (network = ''bc'' \<or> network = ''tb'' \<or> network = ''bcrt'' \<or> network = ''sb'')"

definition isValidValue :: "int option \<Rightarrow> bool" where
  "isValidValue v = (case v of None \<Rightarrow> True | Some n \<Rightarrow> 0 < n)"

definition parsePrefix :: "string \<Rightarrow> error + (string \<times> int option)" where
  "parsePrefix prefix =
     (if take 2 prefix \<noteq> ''ln'' then Inl InvalidPrefix
      else case parse_loop \<lparr>ps_network = [], ps_value = [], ps_multiplier = None,
                            hasNetwork = False, hasAmount = False\<rparr> (drop 2 prefix) of
             Inl e \<Rightarrow> Inl e
           | Inr st \<Rightarrow>
               (case (if ps_value st = [] then Inr None
                      else (case hrpToPico (ps_multiplier st) of
                              Inl e \<Rightarrow> Inl e
                            | Inr f \<Rightarrow> Inr (Some (dec_value (ps_value st) * f)))) of
                  Inl e \<Rightarrow> Inl e
                | Inr v \<Rightarrow>
                    if \<not> isValidNetwork (ps_network st) then Inl InvalidNetwork
                    else if \<not> isValidValue v then Inl InvalidAmount
                    else Inr (ps_network st, v)))"

section \<open>The collaborators\<close>

text \<open>
  The cryptographic substrate (\<open>lib/crypto.js\<close>, \<open>@lntools/crypto\<close>), the size helpers of
  \<open>lib/bech32-util.js\<close>, \<open>lib/encode-pico.js\<close> and the UTF-8 codec of \<open>Buffer\<close> are not among
  the sources. They are parameters of the model: every function below that calls one
  takes this record, and every theorem holds for whatever functions it contains, under
  the hypotheses the theorem states about them. A collaborator that can throw returns an
  \<open>option\<close>, with \<open>None\<close> for the throw.
\<close>

record collaborators =
  sha256 :: "bytes \<Rightarrow> bytes"
  ecdsaRecovery :: "bytes \<Rightarrow> bytes \<Rightarrow> int \<Rightarrow> bytes option"
  ecdsaVerify :: "bytes \<Rightarrow> bytes \<Rightarrow> bytes \<Rightarrow> bool option"
  ecdsaSign :: "bytes \<Rightarrow> bytes \<Rightarrow> (bytes \<times> int) option"
  utf8_toString :: "bytes \<Rightarrow> nat list"
  utf8_fromString :: "nat list \<Rightarrow> bytes"
  sizeofBytes :: "nat \<Rightarrow> nat"
  sizeofBits :: "nat \<Rightarrow> nat"
  sizeofNum :: "int \<Rightarrow> nat"
  encodePico :: "int option \<Rightarrow> string option"
  getPublicKey :: "bytes \<Rightarrow> bytes"
  ecdh :: "bytes \<Rightarrow> bytes \<Rightarrow> bytes option"
  hkdf :: "bytes \<Rightarrow> bytes \<Rightarrow> bytes"
  ccpEncrypt :: "bytes \<Rightarrow> bytes \<Rightarrow> bytes \<Rightarrow> bytes \<Rightarrow> bytes"
  ccpDecrypt :: "bytes \<Rightarrow> bytes \<Rightarrow> bytes \<Rightarrow> bytes \<Rightarrow> bytes option"

section \<open>The invoice\<close>

record route =
  route_pubkey :: bytes
  short_channel_id :: bytes
  fee_base_msat :: int
  fee_proportional_millionths :: int
  cltv_expiry_delta :: int

text \<open>
  The \<open>value\<close> of a field entry \<open>{ type, value }\<close>: a \<open>Buffer\<close>, an array of routes, a
  number, a \<open>{ version, address }\<close> object or a string (its UTF-16 code units).
\<close>

datatype field_value =
    Bytes bytes
  | Routes "route list"
  | Num int
  | Address int bytes
  | Text "nat list"

type_synonym field = "int \<times> field_value"

record signature =
  sig_r :: bytes
  sig_s :: bytes
  recoveryFlag :: int

record Invoice =
  inv_value :: "int option"
  network :: string
  timestamp :: int
  inv_fields :: "field list"
  unknownFields :: "field list"
  signature :: signature
  pubkey :: bytes
  hashData :: bytes
  usedSigRecovery :: bool

definition PAYMENT_HASH :: int where [simp]: "PAYMENT_HASH = 1"
definition ROUTE :: int where [simp]: "ROUTE = 3"
definition EXPIRY :: int where [simp]: "EXPIRY = 6"
definition FALLBACK_ADDRESS :: int where [simp]: "FALLBACK_ADDRESS = 9"
definition SHORT_DESC :: int where [simp]: "SHORT_DESC = 13"
definition PAYEE_NODE :: int where [simp]: "PAYEE_NODE = 19"
definition HASH_DESC :: int where [simp]: "HASH_DESC = 23"
definition MIN_FINAL_CLTV_EXPIRY :: int where [simp]: "MIN_FINAL_CLTV_EXPIRY = 24"
definition SEGWIT :: int where [simp]: "SEGWIT = 0"
definition P2PKH :: int where [simp]: "P2PKH = 17"
definition P2SH :: int where [simp]: "P2SH = 18"

section \<open>The decoder\<close>

text \<open>\<open>readUInt32BE\<close> and \<open>readUInt16BE\<close> of a byte cursor: the unsigned big-endian value.\<close>

definition be_uint :: "bytes \<Rightarrow> int" where
  "be_uint bs = foldl (\<lambda>v b. v * 256 + uint b) 0 bs"

text \<open>
  The route loop \<open>while (!bytecursor.eof)\<close>: each round reads 33 + 8 + 4 + 4 + 2 bytes.
  The byte cursor (the package \<open>simple-buffer-cursor\<close>) raises when a read passes the end
  of the buffer, so a partial trailing hop is an error.
\<close>

function read_routes :: "bytes \<Rightarrow> error + route list" where
  "read_routes bs =
     (if bs = [] then Inr []
      else if length bs < 51 then Inl IndexOutOfRange
      else (case read_routes (drop 51 bs) of
              Inl e \<Rightarrow> Inl e
            | Inr rs \<Rightarrow>
                Inr (\<lparr>route_pubkey = take 33 bs,
                      short_channel_id = take 8 (drop 33 bs),
                      fee_base_msat = be_uint (take 4 (drop 41 bs)),
                      fee_proportional_millionths = be_uint (take 4 (drop 45 bs)),
                      cltv_expiry_delta = be_uint (take 2 (drop 49 bs))\<rparr> # rs)))"
  by pat_completeness auto
termination
  by (relation "measure length") auto

declare read_routes.simps [simp del]

text \<open>
  What one round of the field loop does with the entry it read: \<open>continue\<close> on padding,
  \<open>fields.push\<close>, or \<open>unknownFields.push\<close> followed by \<open>continue\<close>.
\<close>

datatype entry = Padding | Typed field | Untyped field

text \<open>
  The body of \<open>while (wordcursor.wordsRemaining > 104)\<close>. The type word and the two
  length words are read before the \<open>switch\<close>, for every type.
\<close>

definition read_entry :: "collaborators \<Rightarrow> WordCursor \<Rightarrow> error + (WordCursor \<times> entry)" where
  "read_entry env c0 =
     (let (type, c1) = readUIntBE c0 1;
          (len, c2) = readUIntBE c1 2
      in if type = 0 then Inr (c2, Padding)
         else if type = PAYMENT_HASH then
           (let (v, c3) = readBytes c2 len False
            in if len \<noteq> 52 then Inr (c3, Untyped (type, Bytes v))
               else Inr (c3, Typed (type, Bytes v)))
         else if type = ROUTE then
           (let (bs, c3) = readBytes c2 len False
            in case read_routes bs of
                 Inl e \<Rightarrow> Inl e
               | Inr rs \<Rightarrow> Inr (c3, Typed (type, Routes rs)))
         else if type = EXPIRY then
           (let (v, c3) = readUIntBE c2 len in Inr (c3, Typed (type, Num v)))
         else if type = FALLBACK_ADDRESS then
           (let (version, c3) = readUIntBE c2 1;
                (address, c4) = readBytes c3 (len - 1) False
            in if version \<noteq> SEGWIT \<and> version \<noteq> P2PKH \<and> version \<noteq> P2SH
               then Inr (c4, Untyped (type, Address version address))
               else Inr (c4, Typed (type, Address version address)))
         else if type = SHORT_DESC then
           (let (v, c3) = readBytes c2 len False
            in Inr (c3, Typed (type, Text (utf8_toString env v))))
         else if type = PAYEE_NODE then
           (let (v, c3) = readBytes c2 len False
            in if len \<noteq> 53 then Inr (c3, Untyped (type, Bytes v))
               else Inr (c3, Typed (type, Bytes v)))
         else if type = HASH_DESC then
           (let (v, c3) = readBytes c2 len False
            in if len \<noteq> 52 then Inr (c3, Untyped (type, Bytes v))
               else Inr (c3, Typed (type, Bytes v)))
         else if type = MIN_FINAL_CLTV_EXPIRY then
           (let (v, c3) = readUIntBE c2 len in Inr (c3, Typed (type, Num v)))
         else
           (let (v, c3) = readBytes c2 len False
            in Inr (c3, Untyped (type, Bytes v))))"

text \<open>
  The field loop. Every round moves the cursor forward by at least the three header
  words (a length is never negative, being two 5-bit words), which is why it ends.
\<close>

function decode_fields ::
  "collaborators \<Rightarrow> WordCursor \<Rightarrow> field list \<Rightarrow> field list
     \<Rightarrow> error + (WordCursor \<times> field list \<times> field list)" where
  "decode_fields env c fs us =
     (if wordsRemaining c > 104
      then (case read_entry env c of
              Inl e \<Rightarrow> Inl e
            | Inr (c', Padding) \<Rightarrow> decode_fields env c' fs us
            | Inr (c', Typed f) \<Rightarrow> decode_fields env c' (fs @ [f]) us
            | Inr (c', Untyped u) \<Rightarrow> decode_fields env c' fs (us @ [u]))
      else Inr (c, fs, us))"
  by pat_completeness auto
termination
proof -
  have sign: "0 \<le> sint w \<longleftrightarrow> \<not> bit w 31" for w :: "32 word"
    using bit_last_iff[of w] by auto
  have short: "0 \<le> sint (fold_words ws)" if "length ws \<le> 2" for ws
  proof -
    from that consider "ws = []" | a where "ws = [a]" | a b where "ws = [a, b]"
      by (cases ws; cases "tl ws"; cases "tl (tl ws)") auto
    then show ?thesis
      by cases (auto simp add: fold_words_def sign bit_simps dest: bit_imp_le_length)
  qed
  have len2: "length (slice xs p (p + 2)) \<le> 2" for xs :: "word5 list" and p
    by (auto simp: slice_def rel_index_def Let_def)
  have len: "0 \<le> fst (readUIntBE c 2)" for c
    by (simp add: readUIntBE_def Let_def short len2)
  have rd: "snd (readUIntBE c n) = c\<lparr>position := position c + n\<rparr>" for c n
    by (simp add: readUIntBE_def Let_def)
  have rb: "snd (readBytes c n pad) = c\<lparr>position := position c + n\<rparr>" for c n pad
    by (simp add: readBytes_def Let_def)
  have forward: "words c' = words c \<and> position c + 3 \<le> position c'"
    if re: "read_entry env c = Inr (c', e)" for env c c' e
  proof -
    let ?t = "fst (readUIntBE c 1)"
    note L = len[of "snd (readUIntBE c 1)"]
    consider "?t = 0" | "?t = 1" | "?t = 3" | "?t = 6" | "?t = 9" | "?t = 13" | "?t = 19"
      | "?t = 23" | "?t = 24"
      | "?t \<noteq> 0 \<and> ?t \<noteq> 1 \<and> ?t \<noteq> 3 \<and> ?t \<noteq> 6 \<and> ?t \<noteq> 9 \<and> ?t \<noteq> 13
          \<and> ?t \<noteq> 19 \<and> ?t \<noteq> 23 \<and> ?t \<noteq> 24"
      by argo
    then show ?thesis
    proof cases
      case 1
      with re L show ?thesis
        by (simp add: read_entry_def split_def Let_def, auto simp: rd rb split: if_splits)
    next
      case 2
      with re L show ?thesis
        by (simp add: read_entry_def split_def Let_def, auto simp: rd rb split: if_splits)
    next
      case 3
      with re L show ?thesis
        by (simp add: read_entry_def split_def Let_def, auto simp: rd rb split: sum.splits)
    next
      case 4
      with re L show ?thesis
        by (simp add: read_entry_def split_def Let_def, auto simp: rd rb split: if_splits)
    next
      case 5
      with re L show ?thesis
        by (simp add: read_entry_def split_def Let_def, auto simp: rd rb split: if_splits)
    next
      case 6
      with re L show ?thesis
        by (simp add: read_entry_def split_def Let_def, auto simp: rd rb split: if_splits)
    next
      case 7
      with re L show ?thesis
        by (simp add: read_entry_def split_def Let_def, auto simp: rd rb split: if_splits)
    next
      case 8
      with re L show ?thesis
        by (simp add: read_entry_def split_def Let_def, auto simp: rd rb split: if_splits)
    next
      case 9
      with re L show ?thesis
        by (simp add: read_entry_def split_def Let_def, auto simp: rd rb split: if_splits)
    next
      case 10
      with re L show ?thesis
        by (simp add: read_entry_def split_def Let_def, auto simp: rd rb split: if_splits)
    qed
  qed
  have less: "wordsRemaining c' < wordsRemaining c"
    if "read_entry env c = Inr (c', e)" for env c c' e
    using forward[OF that] by (simp add: wordsRemaining_def)
  show ?thesis
    by (relation "measure (\<lambda>(env, c, fs, us). nat (wordsRemaining c))")
      (auto intro: less)
qed

declare decode_fields.simps [simp del]

text \<open>
  \<open>decode\<close>, from the point where \<open>bech32.decode\<close> has split the string into the prefix
  and the words (the bech32 framing and its checksum belong to the package \<open>bech32\<close>).
  \<open>Buffer.from(prefix)\<close> is applied to a prefix that \<open>parsePrefix\<close> has accepted, hence to
  ASCII letters and digits: one byte per character. The payee field found in \<open>fields\<close> was
  stored by \<open>read_entry\<close> and holds a \<open>Buffer\<close>.
\<close>

definition decode :: "collaborators \<Rightarrow> string \<Rightarrow> word5 list \<Rightarrow> error + Invoice" where
  "decode env prefix ws =
     (case parsePrefix prefix of
        Inl e \<Rightarrow> Inl e
      | Inr (network', value) \<Rightarrow>
          (let wordcursor = new_WordCursor ws;
               (timestamp', c1) = readUIntBE wordcursor 7
           in case decode_fields env c1 [] [] of
                Inl e \<Rightarrow> Inl e
              | Inr (c2, fields', unknownFields') \<Rightarrow>
                  (let (sigBytes, c3) = readBytes c2 103 False;
                       r = slice sigBytes 0 32;
                       s = slice sigBytes 32 (int (length sigBytes));
                       (recoveryFlag', c4) = readUIntBE c3 1;
                       c5 = c4\<lparr>position := 0\<rparr>;
                       (pre, c6) = readBytes c5 (int (length ws) - 104) True;
                       preHashData = map of_char prefix @ pre;
                       hashData' = sha256 env preHashData;
                       payeeNodeField = find (\<lambda>p. fst p = PAYEE_NODE) fields'
                   in case (case payeeNodeField of
                              Some (t, Bytes b) \<Rightarrow> Inr b
                            | Some (t, _) \<Rightarrow> Inl IndexOutOfRange
                            | None \<Rightarrow>
                                (case ecdsaRecovery env hashData' sigBytes recoveryFlag' of
                                   None \<Rightarrow> Inl RecoveryFailed
                                 | Some k \<Rightarrow> Inr k)) of
                        Inl e \<Rightarrow> Inl e
                      | Inr pubkey' \<Rightarrow>
                          (case ecdsaVerify env pubkey' hashData' sigBytes of
                             None \<Rightarrow> Inl SignatureInvalid
                           | Some False \<Rightarrow> Inl SignatureInvalid
                           | Some True \<Rightarrow>
                               Inr \<lparr>inv_value = value, network = network',
                                    timestamp = timestamp', inv_fields = fields',
                                    unknownFields = unknownFields',
                                    signature = \<lparr>sig_r = r, sig_s = s,
                                                 recoveryFlag = recoveryFlag'\<rparr>,
                                    pubkey = pubkey', hashData = hashData',
                                    usedSigRecovery = (payeeNodeField \<noteq> None)\<rparr>))))"

text \<open>
  What holds of the parser's state after the characters \<open>cs\<close> that follow \<open>ln\<close>: they are
  the network letters, then the digits, then the letters seen after the digits.
\<close>

definition parse_inv :: "parse_state \<Rightarrow> string \<Rightarrow> bool" where
  "parse_inv st cs \<longleftrightarrow>
     (\<exists>ls. cs = ps_network st @ ps_value st @ ls
        \<and> list_all is_lower (ps_network st) \<and> list_all is_digit (ps_value st)
        \<and> list_all is_lower ls
        \<and> (\<not> hasNetwork st \<longrightarrow> ps_value st = [] \<and> ls = [])
        \<and> (\<not> hasAmount st \<longrightarrow> ls = [])
        \<and> (hasAmount st \<longrightarrow> hasNetwork st \<and> ps_value st \<noteq> []))"

section \<open>The encoder\<close>

text \<open>
  \<open>writeUIntBE\<close>: \<open>val & maxV\<close> and \<open>val >>= 5\<close> work on the signed 32-bit image of
  \<open>val\<close>; the shift is arithmetic. The words are filled from the last to the first.
\<close>

fun uint_words :: "32 word \<Rightarrow> nat \<Rightarrow> word5 list" where
  "uint_words val 0 = []"
| "uint_words val (Suc n) = uint_words (signed_drop_bit 5 val) n @ [ucast (val AND 31)]"

definition writeUIntBE :: "WordCursor \<Rightarrow> int \<Rightarrow> nat \<Rightarrow> error + WordCursor" where
  "writeUIntBE c val wordLen =
     (if wordLen = 0 then Inl WordLenRequired
      else Inr (c\<lparr>words := words c @ uint_words (word_of_int val) wordLen\<rparr>))"

definition writeBytes :: "WordCursor \<Rightarrow> bytes \<Rightarrow> WordCursor" where
  "writeBytes c buf =
     c\<lparr>words := words c @ map of_nat (convertWords (map unat buf) 8 5 True)\<rparr>"

text \<open>
  \<open>source.copy(target, pos)\<close> copies as many bytes of the source as fit from \<open>pos\<close> on;
  \<open>writeUInt32BE\<close> and \<open>writeUInt16BE\<close> raise on a value outside the range of the field
  and on an offset outside the buffer.
\<close>

definition buf_copy :: "bytes \<Rightarrow> bytes \<Rightarrow> nat \<Rightarrow> bytes" where
  "buf_copy src target pos =
     take pos target @ take (length target - pos) src @ drop (pos + length src) target"

definition be_bytes :: "nat \<Rightarrow> int \<Rightarrow> bytes" where
  "be_bytes k v = map (\<lambda>i. of_int (v div 256 ^ (k - 1 - i))) [0..<k]"

definition buf_writeUIntBE :: "nat \<Rightarrow> int \<Rightarrow> bytes \<Rightarrow> nat \<Rightarrow> error + bytes" where
  "buf_writeUIntBE k v target pos =
     (if v < 0 \<or> 256 ^ k \<le> v then Inl ValueOutOfRange
      else if length target < pos + k then Inl IndexOutOfRange
      else Inr (buf_copy (be_bytes k v) target pos))"

text \<open>The loop \<open>for (let route of datum.value)\<close> over the buffer and the write position.\<close>

fun write_routes :: "route list \<Rightarrow> bytes \<Rightarrow> nat \<Rightarrow> error + bytes" where
  "write_routes [] buffer pos = Inr buffer"
| "write_routes (rt # rts) buffer pos =
     (let b1 = buf_copy (route_pubkey rt) buffer pos;
          b2 = buf_copy (short_channel_id rt) b1 (pos + 33)
      in case buf_writeUIntBE 4 (fee_base_msat rt) b2 (pos + 41) of
           Inl e \<Rightarrow> Inl e
         | Inr b3 \<Rightarrow>
             (case buf_writeUIntBE 4 (fee_proportional_millionths rt) b3 (pos + 45) of
                Inl e \<Rightarrow> Inl e
              | Inr b4 \<Rightarrow>
                  (case buf_writeUIntBE 2 (cltv_expiry_delta rt) b4 (pos + 49) of
                     Inl e \<Rightarrow> Inl e
                   | Inr b5 \<Rightarrow> write_routes rts b5 (pos + 51))))"

text \<open>
  The three writes every \<open>case\<close> of \<open>_encodeData\<close> starts with: the type in one word and
  the length in two.
\<close>

definition write_header :: "WordCursor \<Rightarrow> int \<Rightarrow> nat \<Rightarrow> error + WordCursor" where
  "write_header w type dataLen =
     (case writeUIntBE w type 1 of
        Inl e \<Rightarrow> Inl e
      | Inr w1 \<Rightarrow> writeUIntBE w1 (int dataLen) 2)"

text \<open>
  One round of the loop of \<open>_encodeData\<close>. The source reads the value in the shape its
  type announces; a value of another shape under a known type is outside the model
  (\<open>UnsupportedValue\<close>). Under an unknown type a value that is not a \<open>Buffer\<close> throws.
\<close>

definition encode_field :: "collaborators \<Rightarrow> WordCursor \<Rightarrow> field \<Rightarrow> error + WordCursor" where
  "encode_field env w datum =
     (let type = fst datum; v = snd datum
      in if type = PAYMENT_HASH \<or> type = PAYEE_NODE \<or> type = HASH_DESC then
           (case v of
              Bytes b \<Rightarrow>
                (case write_header w type (sizeofBytes env (length b)) of
                   Inl e \<Rightarrow> Inl e
                 | Inr w2 \<Rightarrow> Inr (writeBytes w2 b))
            | _ \<Rightarrow> Inl UnsupportedValue)
         else if type = ROUTE then
           (case v of
              Routes rts \<Rightarrow>
                (let bits = length rts * (264 + 64 + 32 + 32 + 16)
                 in case writeUIntBE w type 1 of
                      Inl e \<Rightarrow> Inl e
                    | Inr w1 \<Rightarrow>
                        (case writeUIntBE w1 (int (sizeofBits env bits)) 2 of
                           Inl e \<Rightarrow> Inl e
                         | Inr w2 \<Rightarrow>
                             (case write_routes rts (replicate (bits div 8) 0) 0 of
                                Inl e \<Rightarrow> Inl e
                              | Inr buffer \<Rightarrow> Inr (writeBytes w2 buffer))))
            | _ \<Rightarrow> Inl UnsupportedValue)
         else if type = EXPIRY \<or> type = MIN_FINAL_CLTV_EXPIRY then
           (case v of
              Num n \<Rightarrow>
                (case write_header w type (sizeofNum env n) of
                   Inl e \<Rightarrow> Inl e
                 | Inr w2 \<Rightarrow> writeUIntBE w2 n (sizeofNum env n))
            | _ \<Rightarrow> Inl UnsupportedValue)
         else if type = FALLBACK_ADDRESS then
           (case v of
              Address version address \<Rightarrow>
                (case write_header w type (sizeofBytes env (length address) + 1) of
                   Inl e \<Rightarrow> Inl e
                 | Inr w2 \<Rightarrow>
                     (case writeUIntBE w2 version 1 of
                        Inl e \<Rightarrow> Inl e
                      | Inr w3 \<Rightarrow> Inr (writeBytes w3 address)))
            | _ \<Rightarrow> Inl UnsupportedValue)
         else if type = SHORT_DESC then
           (case v of
              Text t \<Rightarrow>
                (let buf = utf8_fromString env t
                 in case write_header w type (sizeofBytes env (length buf)) of
                      Inl e \<Rightarrow> Inl e
                    | Inr w2 \<Rightarrow> Inr (writeBytes w2 buf))
            | _ \<Rightarrow> Inl UnsupportedValue)
         else
           (case v of
              Bytes b \<Rightarrow>
                (case write_header w type (sizeofBytes env (length b)) of
                   Inl e \<Rightarrow> Inl e
                 | Inr w2 \<Rightarrow> Inr (writeBytes w2 b))
            | _ \<Rightarrow> Inl CannotProcessUnknownField))"

fun encodeData :: "collaborators \<Rightarrow> field list \<Rightarrow> WordCursor \<Rightarrow> error + WordCursor" where
  "encodeData env [] w = Inr w"
| "encodeData env (datum # rest) w =
     (case encode_field env w datum of
        Inl e \<Rightarrow> Inl e
      | Inr w' \<Rightarrow> encodeData env rest w')"

text \<open>
  \<open>encode\<close>, up to the pair handed to \<open>bech32.encode\<close>. The loop of \<open>_encodeData\<close> runs over
  \<open>invoice.fields\<close>; \<open>invoice.unknownFields\<close> is not read anywhere. The prefix is taken to be
  ASCII, one byte per character, as a bech32 prefix is.
\<close>

definition encode :: "collaborators \<Rightarrow> Invoice \<Rightarrow> bytes \<Rightarrow> error + (string \<times> word5 list)" where
  "encode env invoice privKey =
     (let writer = new_WordCursor [];
          encodedAmount = (case encodePico env (inv_value invoice) of
                             None \<Rightarrow> [] | Some a \<Rightarrow> a);
          prefix = ''ln'' @ network invoice @ encodedAmount
      in case writeUIntBE writer (timestamp invoice) 7 of
           Inl e \<Rightarrow> Inl e
         | Inr w1 \<Rightarrow>
             (case encodeData env (inv_fields invoice) w1 of
                Inl e \<Rightarrow> Inl e
              | Inr w2 \<Rightarrow>
                  (let bytes = convertWords (map unat (words w2)) 5 8 True;
                       sigData = map of_char prefix @ map of_nat bytes;
                       sigHash = sha256 env sigData
                   in case ecdsaSign env sigHash privKey of
                        None \<Rightarrow> Inl SigningFailed
                      | Some (sg, recovery) \<Rightarrow>
                          (let w3 = writeBytes w2 sg
                           in case writeUIntBE w3 recovery 1 of
                                Inl e \<Rightarrow> Inl e
                              | Inr w4 \<Rightarrow> Inr (prefix, words w4)))))"

section \<open>A concrete instance of the collaborators\<close>

text \<open>
  To run the model on explicit inputs the collaborators must be instantiated. The
  instance \<open>toy\<close> keeps the shapes of the real ones (a 32-byte digest, 33-byte public keys,
  64-byte signatures, 64 bytes of key material, a 16-byte tag) and nothing of their
  cryptography: the verifier accepts every 64-byte signature under every 33-byte key,
  recovery returns a fixed key, the key agreement is byte-wise addition and the cipher
  appends a tag to the plaintext.
\<close>

definition pad32 :: "bytes \<Rightarrow> bytes" where
  "pad32 bs = take 32 (bs @ replicate 32 0)"

definition toy_tag :: "bytes \<Rightarrow> bytes \<Rightarrow> bytes \<Rightarrow> bytes" where
  "toy_tag k n ad = replicate 16 (of_nat (length k + length n + length ad))"

fun dec_digits :: "nat \<Rightarrow> string" where
  "dec_digits n =
     (if n < 10 then [char_of (48 + n)]
      else dec_digits (n div 10) @ [char_of (48 + n mod 10)])"

declare dec_digits.simps [simp del]

fun base32_digits :: "nat \<Rightarrow> nat" where
  "base32_digits n = (if n = 0 then 0 else Suc (base32_digits (n div 32)))"

declare base32_digits.simps [simp del]

definition toy_encodePico :: "int option \<Rightarrow> string option" where
  "toy_encodePico v =
     (case v of
        None \<Rightarrow> None
      | Some n \<Rightarrow>
          Some (if n mod 1000000000000 = 0 then dec_digits (nat (n div 1000000000000))
                else if n mod 1000000000 = 0 then dec_digits (nat (n div 1000000000)) @ ''m''
                else if n mod 1000000 = 0 then dec_digits (nat (n div 1000000)) @ ''u''
                else if n mod 1000 = 0 then dec_digits (nat (n div 1000)) @ ''n''
                else dec_digits (nat n) @ ''p''))"

definition toy :: collaborators where
  "toy =
     \<lparr>sha256 = (\<lambda>bs. replicate 32 (of_nat (length bs))),
      ecdsaRecovery = (\<lambda>h sg flag.
         if length sg = 64 \<and> 0 \<le> flag \<and> flag \<le> 3 then Some (replicate 33 2) else None),
      ecdsaVerify = (\<lambda>k h sg. if length sg = 64 then Some (length k = 33) else None),
      ecdsaSign = (\<lambda>h k. Some (replicate 64 0, 0)),
      utf8_toString = map unat,
      utf8_fromString = map of_nat,
      sizeofBytes = (\<lambda>n. (n * 8 + 4) div 5),
      sizeofBits = (\<lambda>n. (n + 4) div 5),
      sizeofNum = (\<lambda>v. base32_digits (nat v)),
      encodePico = toy_encodePico,
      getPublicKey = (\<lambda>k. 2 # pad32 k),
      ecdh = (\<lambda>p k. Some (map2 (+) (pad32 (tl p)) (pad32 k))),
      hkdf = (\<lambda>ck ikm. pad32 (map2 (+) (pad32 ck) (pad32 ikm)) @ pad32 (rev (pad32 ikm))),
      ccpEncrypt = (\<lambda>k n ad p. p @ toy_tag k n ad),
      ccpDecrypt = (\<lambda>k n ad c.
         if 16 \<le> length c \<and> drop (length c - 16) c = toy_tag k n ad
         then Some (take (length c - 16) c) else None)\<rparr>"

section \<open>Explicit word streams\<close>

text \<open>
  The streams the model is run on. All start with seven zero timestamp words and end with
  the zero words of a signature.
  \<^item> \<open>padded_stream\<close>: the words \<open>0, 3, 5\<close>, then 104 words.
  \<^item> \<open>payee_stream\<close>: a tag-19 entry of length \<open>1 * 32 + 21 = 53\<close> words, then 104 words.
  \<^item> \<open>unknown_stream\<close>: an entry of the unassigned type 2 with the two value words
    \<open>31, 31\<close>, then 104 words.
\<close>

definition padded_stream :: "word5 list" where
  "padded_stream = replicate 7 0 @ [0, 3, 5] @ replicate 104 0"

definition payee_stream :: "word5 list" where
  "payee_stream = replicate 7 0 @ [19, 1, 21] @ replicate 53 0 @ replicate 104 0"


text \<open>
  The digest as the spec describes it: SHA-256 of the ASCII bytes of the prefix followed
  by the 8-bit regrouping, with padding, of all the words but the last 104.
\<close>

definition preimage_digest :: "collaborators \<Rightarrow> string \<Rightarrow> word5 list \<Rightarrow> bytes" where
  "preimage_digest env hrp ws =
     sha256 env (map of_char hrp @
       map of_nat (convertWords (map unat (take (length ws - 104) ws)) 5 8 True))"


text \<open>The invoice that \<open>decode\<close> returns for \<open>unknown_stream\<close>.\<close>

definition unknown_invoice :: Invoice where
  "unknown_invoice =
     \<lparr>inv_value = None, network = ''bc'', timestamp = 0, inv_fields = [],
      unknownFields = [(2, Bytes [255])],
      signature = \<lparr>sig_r = replicate 32 0, sig_s = replicate 32 0, recoveryFlag = 0\<rparr>,
      pubkey = replicate 33 2, hashData = replicate 32 12, usedSigRecovery = False\<rparr>"

section \<open>The transport handshake\<close>

text \<open>
  \<open>NoiseState\<close>, with the fields of the class. A field the constructor leaves undefined
  holds the empty buffer until an act assigns it. The acts are meant to be called in
  order; an act that throws leaves an object the caller must discard, so a failed act
  returns the error alone.
\<close>

record NoiseState =
  ls :: bytes
  lp :: bytes
  es :: bytes
  ep :: bytes
  rs :: bytes
  re :: bytes
  h :: bytes
  ck :: bytes
  temp_k1 :: bytes
  temp_k2 :: bytes
  temp_k3 :: bytes
  rk :: bytes
  sk :: bytes
  sn :: bytes
  rn :: bytes

definition protocolName :: bytes where
  "protocolName = map of_char ''Noise_XK_secp256k1_ChaChaPoly_SHA256''"

definition prologue :: bytes where
  "prologue = map of_char ''lightning''"

text \<open>\<open>Buffer.alloc(12)\<close>, and the nonce of the first message of act 3.\<close>

definition zero_nonce :: bytes where
  "zero_nonce = replicate 12 0"

definition act3_nonce :: bytes where
  "act3_nonce = [0, 0, 0, 0, 1, 0, 0, 0, 0, 0, 0, 0]"

definition new_NoiseState :: "collaborators \<Rightarrow> bytes \<Rightarrow> bytes \<Rightarrow> NoiseState" where
  "new_NoiseState env ls' es' =
     \<lparr>ls = ls', lp = getPublicKey env ls', es = es', ep = getPublicKey env es',
      rs = [], re = [], h = [], ck = [], temp_k1 = [], temp_k2 = [], temp_k3 = [],
      rk = [], sk = [], sn = [], rn = []\<rparr>"

definition initialize :: "collaborators \<Rightarrow> NoiseState \<Rightarrow> bytes \<Rightarrow> NoiseState" where
  "initialize env st pub =
     (let st1 = st\<lparr>h := sha256 env protocolName\<rparr>;
          st2 = st1\<lparr>ck := h st1\<rparr>;
          st3 = st2\<lparr>h := sha256 env (h st2 @ prologue)\<rparr>
      in st3\<lparr>h := sha256 env (h st3 @ pub)\<rparr>)"

definition initiatorAct1 ::
  "collaborators \<Rightarrow> NoiseState \<Rightarrow> bytes \<Rightarrow> error + (bytes \<times> NoiseState)" where
  "initiatorAct1 env st rs' =
     (let st1 = initialize env (st\<lparr>rs := rs'\<rparr>) rs';
          st2 = st1\<lparr>h := sha256 env (h st1 @ ep st1)\<rparr>
      in case ecdh env (rs st2) (es st2) of
           None \<Rightarrow> Inl EcdhFailed
         | Some ss \<Rightarrow>
             (let t1 = hkdf env (ck st2) ss;
                  st3 = st2\<lparr>ck := take 32 t1, temp_k1 := drop 32 t1\<rparr>;
                  c = ccpEncrypt env (temp_k1 st3) zero_nonce (h st3) [];
                  st4 = st3\<lparr>h := sha256 env (h st3 @ c)\<rparr>
              in Inr ([0] @ ep st4 @ c, st4)))"

definition initiatorAct2 :: "collaborators \<Rightarrow> NoiseState \<Rightarrow> bytes \<Rightarrow> error + NoiseState" where
  "initiatorAct2 env st m =
     (if length m \<noteq> 50 then Inl ACT2_READ_FAILED
      else let v = hd m;
               c = slice m 34 (int (length m));
               st1 = st\<lparr>re := slice m 1 34\<rparr>
           in if v \<noteq> 0 then Inl ACT2_BAD_VERSION
              else let st2 = st1\<lparr>h := sha256 env (h st1 @ re st1)\<rparr>
                   in case ecdh env (re st2) (es st2) of
                        None \<Rightarrow> Inl EcdhFailed
                      | Some ss \<Rightarrow>
                          (let t2 = hkdf env (ck st2) ss;
                               st3 = st2\<lparr>ck := take 32 t2, temp_k2 := drop 32 t2\<rparr>
                           in case ccpDecrypt env (temp_k2 st3) zero_nonce (h st3) c of
                                None \<Rightarrow> Inl DecryptFailed
                              | Some pt \<Rightarrow> Inr (st3\<lparr>h := sha256 env (h st3 @ c)\<rparr>)))"

definition initiatorAct3 ::
  "collaborators \<Rightarrow> NoiseState \<Rightarrow> error + (bytes \<times> NoiseState)" where
  "initiatorAct3 env st =
     (let c = ccpEncrypt env (temp_k2 st) act3_nonce (h st) (lp st);
          st1 = st\<lparr>h := sha256 env (h st @ c)\<rparr>
      in case ecdh env (re st1) (ls st1) of
           None \<Rightarrow> Inl EcdhFailed
         | Some ss \<Rightarrow>
             (let t3 = hkdf env (ck st1) ss;
                  st2 = st1\<lparr>ck := take 32 t3, temp_k3 := drop 32 t3\<rparr>;
                  t = ccpEncrypt env (temp_k3 st2) zero_nonce (h st2) [];
                  keys = hkdf env (ck st2) [];
                  st3 = st2\<lparr>rk := drop 32 keys, sk := take 32 keys,
                            sn := zero_nonce, rn := zero_nonce\<rparr>
              in Inr ([0] @ c @ t, st3)))"

definition receiveAct1 :: "collaborators \<Rightarrow> NoiseState \<Rightarrow> bytes \<Rightarrow> error + NoiseState" where
  "receiveAct1 env st m =
     (let st0 = initialize env st (lp st)
      in if length m \<noteq> 50 then Inl ACT1_READ_FAILED
         else let v = hd m;
                  c = slice m 34 (int (length m));
                  st1 = st0\<lparr>re := slice m 1 34\<rparr>
              in if v \<noteq> 0 then Inl ACT1_BAD_VERSION
                 else let st2 = st1\<lparr>h := sha256 env (h st1 @ re st1)\<rparr>
                      in case ecdh env (re st2) (ls st2) of
                           None \<Rightarrow> Inl EcdhFailed
                         | Some ss \<Rightarrow>
                             (let t1 = hkdf env (ck st2) ss;
                                  st3 = st2\<lparr>ck := take 32 t1, temp_k1 := drop 32 t1\<rparr>
                              in case ccpDecrypt env (temp_k1 st3) zero_nonce (h st3) c of
                                   None \<Rightarrow> Inl DecryptFailed
                                 | Some pt \<Rightarrow> Inr (st3\<lparr>h := sha256 env (h st3 @ c)\<rparr>)))"

definition recieveAct2 ::
  "collaborators \<Rightarrow> NoiseState \<Rightarrow> error + (bytes \<times> NoiseState)" where
  "recieveAct2 env st =
     (let st1 = st\<lparr>h := sha256 env (h st @ ep st)\<rparr>
      in case ecdh env (re st1) (es st1) of
           None \<Rightarrow> Inl EcdhFailed
         | Some ss \<Rightarrow>
             (let t2 = hkdf env (ck st1) ss;
                  st2 = st1\<lparr>ck := take 32 t2, temp_k2 := drop 32 t2\<rparr>;
                  c = ccpEncrypt env (temp_k2 st2) zero_nonce (h st2) [];
                  st3 = st2\<lparr>h := sha256 env (h st2 @ c)\<rparr>
              in Inr ([0] @ ep st3 @ c, st3)))"

definition receiveAct3 :: "collaborators \<Rightarrow> NoiseState \<Rightarrow> bytes \<Rightarrow> error + NoiseState" where
  "receiveAct3 env st m =
     (if length m \<noteq> 66 then Inl ACT3_READ_FAILED
      else let v = hd m;
               c = slice m 1 50;
               t = slice m 50 (int (length m))
           in if v \<noteq> 0 then Inl ACT3_BAD_VERSION
              else case ccpDecrypt env (temp_k2 st) act3_nonce (h st) c of
                     None \<Rightarrow> Inl DecryptFailed
                   | Some rs' \<Rightarrow>
                       (let st1 = st\<lparr>rs := rs'\<rparr>;
                            st2 = st1\<lparr>h := sha256 env (h st1 @ c)\<rparr>
                        in case ecdh env (rs st2) (es st2) of
                             None \<Rightarrow> Inl EcdhFailed
                           | Some ss \<Rightarrow>
                               (let t3 = hkdf env (ck st2) ss;
                                    st3 = st2\<lparr>ck := take 32 t3, temp_k3 := drop 32 t3\<rparr>
                                in case ccpDecrypt env (temp_k3 st3) zero_nonce (h st3) t of
                                     None \<Rightarrow> Inl DecryptFailed
                                   | Some pt \<Rightarrow>
                                       (let keys = hkdf env (ck st3) []
                                        in Inr (st3\<lparr>rk := take 32 keys, sk := drop 32 keys,
                                                     rn := zero_nonce, sn := zero_nonce\<rparr>)))))"

section \<open>Transport framing\<close>

text \<open>
  \<open>readUInt16LE\<close> and \<open>writeUInt16LE\<close> of a \<open>Buffer\<close>: both raise when the two bytes
  are not inside the buffer, and the write raises on a value above 65535.
\<close>

definition readUInt16LE :: "bytes \<Rightarrow> nat \<Rightarrow> error + nat" where
  "readUInt16LE buf off =
     (if length buf < off + 2 then Inl IndexOutOfRange
      else Inr (unat (buf ! off) + 256 * unat (buf ! (off + 1))))"

definition writeUInt16LE :: "nat \<Rightarrow> bytes \<Rightarrow> nat \<Rightarrow> error + bytes" where
  "writeUInt16LE v buf off =
     (if 65535 < v then Inl ValueOutOfRange
      else if length buf < off + 2 then Inl IndexOutOfRange
      else Inr (buf[off := of_nat (v mod 256), off + 1 := of_nat (v div 256)]))"

definition incrementSendingNonce :: "NoiseState \<Rightarrow> error + (nat \<times> NoiseState)" where
  "incrementSendingNonce st =
     (case readUInt16LE (sn st) 4 of
        Inl e \<Rightarrow> Inl e
      | Inr v \<Rightarrow>
          (case writeUInt16LE (v + 1) (sn st) 4 of
             Inl e \<Rightarrow> Inl e
           | Inr buf \<Rightarrow> Inr (v + 1, st\<lparr>sn := buf\<rparr>)))"

definition incrementRecievingNonce :: "NoiseState \<Rightarrow> error + (nat \<times> NoiseState)" where
  "incrementRecievingNonce st =
     (case readUInt16LE (rn st) 4 of
        Inl e \<Rightarrow> Inl e
      | Inr v \<Rightarrow>
          (case writeUInt16LE (v + 1) (rn st) 4 of
             Inl e \<Rightarrow> Inl e
           | Inr buf \<Rightarrow> Inr (v + 1, st\<lparr>rn := buf\<rparr>)))"

definition rotateSendingKeys :: "collaborators \<Rightarrow> NoiseState \<Rightarrow> NoiseState" where
  "rotateSendingKeys env st =
     (let result = hkdf env (ck st) (sk st)
      in st\<lparr>sk := drop 32 result, ck := take 32 result, sn := zero_nonce\<rparr>)"

definition rotateRecievingKeys :: "collaborators \<Rightarrow> NoiseState \<Rightarrow> NoiseState" where
  "rotateRecievingKeys env st =
     (let result = hkdf env (ck st) (rk st)
      in st\<lparr>rk := drop 32 result, ck := take 32 result, rn := zero_nonce\<rparr>)"

text \<open>
  The statement \<open>if (this._incrementSendingNonce() >= 1000) this._rotateSendingKeys()\<close>
  and its receiving twin.
\<close>

definition advance_sending :: "collaborators \<Rightarrow> NoiseState \<Rightarrow> error + NoiseState" where
  "advance_sending env st =
     (case incrementSendingNonce st of
        Inl e \<Rightarrow> Inl e
      | Inr (v, st1) \<Rightarrow> Inr (if 1000 \<le> v then rotateSendingKeys env st1 else st1))"

definition advance_receiving :: "collaborators \<Rightarrow> NoiseState \<Rightarrow> error + NoiseState" where
  "advance_receiving env st =
     (case incrementRecievingNonce st of
        Inl e \<Rightarrow> Inl e
      | Inr (v, st1) \<Rightarrow> Inr (if 1000 \<le> v then rotateRecievingKeys env st1 else st1))"

text \<open>
  The three transport operations. Each returns what the method returns or throws, the
  nonces it passed to the cipher, in call order, and the state it leaves behind (also
  when it throws: the object stays as it was at the throw).
\<close>

definition encryptMessage ::
  "collaborators \<Rightarrow> NoiseState \<Rightarrow> bytes \<Rightarrow> (error + bytes) \<times> bytes list \<times> NoiseState" where
  "encryptMessage env st m =
     (if 65535 < length m then (Inl ValueOutOfRange, [], st)
      else let l = [of_nat (length m div 256), of_nat (length m mod 256)];
               lc = ccpEncrypt env (sk st) (sn st) [] l
           in case advance_sending env st of
                Inl e \<Rightarrow> (Inl e, [sn st], st)
              | Inr st1 \<Rightarrow>
                  (let c = ccpEncrypt env (sk st1) (sn st1) [] m
                   in case advance_sending env st1 of
                        Inl e \<Rightarrow> (Inl e, [sn st, sn st1], st1)
                      | Inr st2 \<Rightarrow> (Inr (lc @ c), [sn st, sn st1], st2)))"

definition decryptLength ::
  "collaborators \<Rightarrow> NoiseState \<Rightarrow> bytes \<Rightarrow> (error + nat) \<times> bytes list \<times> NoiseState" where
  "decryptLength env st lc =
     (case ccpDecrypt env (rk st) (rn st) [] lc of
        None \<Rightarrow> (Inl DecryptFailed, [rn st], st)
      | Some l \<Rightarrow>
          (case advance_receiving env st of
             Inl e \<Rightarrow> (Inl e, [rn st], st)
           | Inr st1 \<Rightarrow>
               if length l < 2 then (Inl IndexOutOfRange, [rn st], st1)
               else (Inr (256 * unat (l ! 0) + unat (l ! 1)), [rn st], st1)))"

definition decryptMessage ::
  "collaborators \<Rightarrow> NoiseState \<Rightarrow> bytes \<Rightarrow> (error + bytes) \<times> bytes list \<times> NoiseState" where
  "decryptMessage env st c =
     (case ccpDecrypt env (rk st) (rn st) [] c of
        None \<Rightarrow> (Inl DecryptFailed, [rn st], st)
      | Some m \<Rightarrow>
          (case advance_receiving env st of
             Inl e \<Rightarrow> (Inl e, [rn st], st)
           | Inr st1 \<Rightarrow> (Inr m, [rn st], st1)))"

text \<open>
  The states of a transport: what act 3 leaves on either side, and what the three
  operations make of such a state.
\<close>

inductive ready :: "collaborators \<Rightarrow> NoiseState \<Rightarrow> bool" for env where
  after_initiatorAct3: "initiatorAct3 env st0 = Inr (m, st) \<Longrightarrow> ready env st"
| after_receiveAct3: "receiveAct3 env st0 m = Inr st \<Longrightarrow> ready env st"
| after_encryptMessage: "ready env st \<Longrightarrow> ready env (snd (snd (encryptMessage env st m)))"
| after_decryptLength: "ready env st \<Longrightarrow> ready env (snd (snd (decryptLength env st lc)))"
| after_decryptMessage: "ready env st \<Longrightarrow> ready env (snd (snd (decryptMessage env st c)))"

text \<open>
  The nonce with counter \<open>k\<close>: a little-endian 16-bit counter at offsets 4 and 5, zero
  elsewhere. \<open>nonce_ok\<close> is the shape the claim gives: twelve bytes, the ten bytes around
  the counter zero, the counter at most 999.
\<close>

definition counter_nonce :: "nat \<Rightarrow> bytes" where
  "counter_nonce k =
     [0, 0, 0, 0, of_nat (k mod 256), of_nat (k div 256), 0, 0, 0, 0, 0, 0]"

definition nonce_ok :: "bytes \<Rightarrow> bool" where
  "nonce_ok n \<longleftrightarrow>
     length n = 12 \<and> take 4 n = replicate 4 0 \<and> drop 6 n = replicate 6 0
     \<and> unat (n ! 4) + 256 * unat (n ! 5) \<le> 999"

text \<open>
  A run of \<open>encryptMessage\<close> over a list of messages, stopping at the first throw: the
  nonces used, in order, and the final state.
\<close>

fun send_all ::
  "collaborators \<Rightarrow> NoiseState \<Rightarrow> bytes list \<Rightarrow> error + (bytes list \<times> NoiseState)" where
  "send_all env st [] = Inr ([], st)"
| "send_all env st (m # ms) =
     (case encryptMessage env st m of
        (Inl e, ns, st1) \<Rightarrow> Inl e
      | (Inr out, ns, st1) \<Rightarrow>
          (case send_all env st1 ms of
             Inl e \<Rightarrow> Inl e
           | Inr (log, st2) \<Rightarrow> Inr (ns @ log, st2)))"


text \<open>
  Both counters of a state have the shape \<open>nonce_ok\<close>.
\<close>

definition counters_ok :: "NoiseState \<Rightarrow> bool" where
  "counters_ok st \<longleftrightarrow> nonce_ok (sn st) \<and> nonce_ok (rn st)"


section \<open>Properties\<close>

text \<open>
  C5 (code evaluated at the failing inputs). The claim says that \<open>readUIntBE(n)\<close> returns
  the unsigned big-endian fold of the words for every word count, so that the 7-word
  timestamp is exact up to \<open>2^35 - 1\<close>. The 32-bit shift and or of the source lose the
  bits above bit 31: the seven words \<open>2,0,0,0,0,0,0\<close> (the value \<open>2^31\<close>) read as
  \<open>-2147483648\<close>, and \<open>4,0,0,0,0,0,0\<close> (the value \<open>2^32\<close>) read as \<open>0\<close>.
\<close>

theorem readUIntBE_timestamp_wraps:
  "fst (readUIntBE (new_WordCursor [2, 0, 0, 0, 0, 0, 0]) 7) = - 2147483648
   \<and> be_fold [2, 0, 0, 0, 0, 0, 0] = 2147483648
   \<and> fst (readUIntBE (new_WordCursor [4, 0, 0, 0, 0, 0, 0]) 7) = 0
   \<and> be_fold [4, 0, 0, 0, 0, 0, 0] = 4294967296"
  by (simp add: readUIntBE_def new_WordCursor_def slice_def rel_index_def fold_words_def
      be_fold_def)

subsection \<open>The prefix grammar\<close>

lemma parse_char_inv:
  assumes "parse_inv st cs" and "parse_char st c = Inr st'"
  shows "parse_inv st' (cs @ [c])"
proof -
  from assms(1) obtain lts where lts: "cs = ps_network st @ ps_value st @ lts"
    "list_all is_lower (ps_network st)" "list_all is_digit (ps_value st)"
    "list_all is_lower lts" "\<not> hasNetwork st \<longrightarrow> ps_value st = [] \<and> lts = []"
    "\<not> hasAmount st \<longrightarrow> lts = []" "hasAmount st \<longrightarrow> hasNetwork st \<and> ps_value st \<noteq> []"
    unfolding parse_inv_def by blast
  show ?thesis
  proof (cases "hasAmount st")
    case True
    with assms(2) lts show ?thesis
      unfolding parse_inv_def
      by (intro exI[of _ "lts @ [c]"]) (auto simp: parse_char_def Let_def split: if_splits)
  next
    case False
    note nA = this
    show ?thesis
    proof (cases "hasNetwork st")
      case True
      show ?thesis
      proof (cases "is_digit c")
        case True
        with assms(2) lts nA \<open>hasNetwork st\<close> show ?thesis
          unfolding parse_inv_def
          by (intro exI[of _ "[]"]) (auto simp: parse_char_def Let_def split: if_splits)
      next
        case False
        with assms(2) lts nA \<open>hasNetwork st\<close> show ?thesis
          unfolding parse_inv_def
          by (intro exI[of _ "[c]"]) (auto simp: parse_char_def Let_def split: if_splits)
      qed
    next
      case False
      with assms(2) lts nA show ?thesis
        unfolding parse_inv_def
        by (intro exI[of _ "[]"]) (auto simp: parse_char_def Let_def split: if_splits)
    qed
  qed
qed

lemma parse_loop_inv:
  "parse_inv st done \<Longrightarrow> parse_loop st cs = Inr st' \<Longrightarrow> parse_inv st' (done @ cs)"
proof (induction cs arbitrary: st "done")
  case Nil
  then show ?case by simp
next
  case (Cons c cs)
  from Cons.prems(2) obtain st1 where s1: "parse_char st c = Inr st1"
    and s2: "parse_loop st1 cs = Inr st'"
    by (auto split: sum.splits)
  from parse_char_inv[OF Cons.prems(1) s1] have "parse_inv st1 (done @ [c])" .
  from Cons.IH[OF this s2] show ?case by simp
qed

text \<open>
  C6 (as stated, refuted). The claim says that an accepted prefix has, after the network
  tag, either nothing or digits followed by exactly one lowercase letter, and that more
  than one trailing letter is rejected. \<open>parsePrefix\<close> accepts \<open>lnbc25\<close>, digits with no
  multiplier letter (the multiplier table gives \<open>10^12\<close> for none), and it accepts
  \<open>lnbc25mu\<close>, where each letter after the digits overwrites \<open>multiplier\<close> and the last one
  is used.
\<close>

theorem parsePrefix_letter_count_counterexample:
  "parsePrefix ''lnbc25'' = Inr (''bc'', Some 25000000000000)
   \<and> parsePrefix ''lnbc25mu'' = Inr (''bc'', Some 25000000)"
  by (simp add: parsePrefix_def parse_char_def is_lower_def is_digit_def hrpToPico_def
      dec_value_def isValidNetwork_def isValidValue_def)

text \<open>
  C6 (amended). For every prefix accepted by \<open>parsePrefix\<close>, the characters after \<open>ln\<close>
  are the returned network tag, one of \<open>bc\<close>, \<open>tb\<close>, \<open>bcrt\<close>, \<open>sb\<close>, followed by either
  nothing or a non-empty run of decimal digits and then lowercase letters only; so every
  prefix with a character outside this grammar makes \<open>parsePrefix\<close> throw. How many
  letters may follow the digits is left open.
\<close>

theorem parsePrefix_accepts_grammar:
  assumes "parsePrefix p = Inr (net, v)"
  shows "\<exists>ds lts. p = ''ln'' @ net @ ds @ lts \<and> isValidNetwork net
           \<and> list_all is_digit ds \<and> list_all is_lower lts \<and> (ds = [] \<longrightarrow> lts = [])"
proof -
  let ?st0 = "\<lparr>ps_network = [], ps_value = [], ps_multiplier = None,
               hasNetwork = False, hasAmount = False\<rparr>"
  from assms have ln: "take 2 p = ''ln''"
    by (auto simp: parsePrefix_def split: if_splits)
  from assms obtain st where st: "parse_loop ?st0 (drop 2 p) = Inr st"
    and net: "net = ps_network st" and valid: "isValidNetwork (ps_network st)"
    by (auto simp: parsePrefix_def split: if_splits sum.splits)
  have "parse_inv ?st0 []" by (simp add: parse_inv_def)
  from parse_loop_inv[OF this st] have "parse_inv st (drop 2 p)" by simp
  then obtain lts where lts: "drop 2 p = ps_network st @ ps_value st @ lts"
    "list_all is_digit (ps_value st)" "list_all is_lower lts"
    "\<not> hasAmount st \<longrightarrow> lts = []" "hasAmount st \<longrightarrow> ps_value st \<noteq> []"
    unfolding parse_inv_def by blast
  have "p = take 2 p @ drop 2 p" by simp
  with ln lts(1) net have "p = ''ln'' @ net @ ps_value st @ lts" by metis
  moreover have "ps_value st = [] \<longrightarrow> lts = []" using lts(4,5) by blast
  ultimately show ?thesis using valid net lts(2,3) by blast
qed

theorem parsePrefix_accepts_grammar_witness:
  "parsePrefix ''lnbc2500u'' = Inr (''bc'', Some 2500000000)
   \<and> (\<exists>ds lts. ''lnbc2500u'' = ''ln'' @ ''bc'' @ ds @ lts \<and> isValidNetwork ''bc''
          \<and> list_all is_digit ds \<and> list_all is_lower lts \<and> (ds = [] \<longrightarrow> lts = []))"
proof -
  have run: "parsePrefix ''lnbc2500u'' = Inr (''bc'', Some 2500000000)"
    by (simp add: parsePrefix_def parse_char_def is_lower_def is_digit_def hrpToPico_def
        dec_value_def isValidNetwork_def isValidValue_def)
  from parsePrefix_accepts_grammar[OF run] run show ?thesis by blast
qed

subsection \<open>Running the model: streams of zero words\<close>

text \<open>
  The explicit inputs below are mostly zero words. Regrouping zeros gives zeros, whatever
  the two widths; this replaces a step-by-step evaluation of the 104 signature words.
\<close>

lemma emit_groups_zero:
  "0 < ob \<Longrightarrow> emit_groups ob 0 b = (replicate (b div ob) 0, b mod ob)"
proof (induction b rule: less_induct)
  case (less b)
  show ?case
  proof (cases "ob \<le> b")
    case True
    with less.prems have "b - ob < b" by simp
    from less.IH[OF this less.prems] True less.prems show ?thesis
      by (subst emit_groups.simps) (simp add: Let_def le_div_geq le_mod_geq)
  next
    case False
    then show ?thesis by (subst emit_groups.simps) simp
  qed
qed

lemma div_carry:
  assumes "0 < (k::nat)"
  shows "a div k + (a mod k + c) div k = (a + c) div k"
proof -
  have "a + c = (a mod k + c) + (a div k) * k" by simp
  then have "(a + c) div k = ((a mod k + c) + (a div k) * k) div k" by simp
  also have "\<dots> = a div k + (a mod k + c) div k"
    using assms by (subst div_mult_self1) simp_all
  finally show ?thesis by simp
qed

lemma mod_carry: "(a mod k + c) mod k = (a + c) mod (k::nat)"
  by (simp add: mod_simps)

lemma convert_loop_zeros:
  "0 < ob \<Longrightarrow> b < ob \<Longrightarrow> convert_loop ib ob 0 b (replicate n 0) =
     (replicate ((b + ib * n) div ob) 0, 0, (b + ib * n) mod ob)"
proof (induction n arbitrary: b)
  case 0
  then show ?case by simp
next
  case (Suc n)
  have lt: "(b + ib) mod ob < ob" using Suc.prems(1) by simp
  have "convert_loop ib ob 0 b (replicate (Suc n) 0) =
          (replicate ((b + ib) div ob) 0 @ replicate (((b + ib) mod ob + ib * n) div ob) 0,
           0, ((b + ib) mod ob + ib * n) mod ob)"
    using Suc.IH[OF Suc.prems(1) lt] Suc.prems(1)
    by (simp add: emit_groups_zero Let_def)
  also have "\<dots> = (replicate ((b + ib * Suc n) div ob) 0, 0, (b + ib * Suc n) mod ob)"
    using div_carry[OF Suc.prems(1), of "b + ib" "ib * n"] mod_carry[of "b + ib" ob "ib * n"]
    by (simp add: replicate_add[symmetric] add.assoc)
  finally show ?case .
qed

lemma convertWords_zeros:
  "0 < ob \<Longrightarrow> convertWords (replicate n 0) ib ob pad =
     replicate ((ib * n) div ob + (if pad \<and> 0 < (ib * n) mod ob then 1 else 0)) 0"
  using convert_loop_zeros[of ob 0 ib n]
  by (simp add: convertWords_def replicate_append_same)


lemma fold_words_zeros: "fold_words (replicate n 0) = 0"
  unfolding fold_words_def by (induction n) simp_all

lemma decode_fields_done:
  "\<not> 104 < wordsRemaining c \<Longrightarrow> decode_fields env c fs us = Inr (c, fs, us)"
  by (subst decode_fields.simps) simp

lemma decode_fields_step:
  "104 < wordsRemaining c \<Longrightarrow> decode_fields env c fs us =
     (case read_entry env c of
        Inl e \<Rightarrow> Inl e
      | Inr (c', Padding) \<Rightarrow> decode_fields env c' fs us
      | Inr (c', Typed f) \<Rightarrow> decode_fields env c' (fs @ [f]) us
      | Inr (c', Untyped u) \<Rightarrow> decode_fields env c' fs (us @ [u]))"
  by (subst decode_fields.simps) simp

lemma parse_lnbc: "parsePrefix ''lnbc'' = Inr (''bc'', None)"
  by (simp add: parsePrefix_def parse_char_def is_lower_def is_digit_def
      isValidNetwork_def isValidValue_def)

lemma fold_words_Nil: "fold_words [] = 0"
  by (simp add: fold_words_def)

lemmas cursor_eval = fold_words_Nil new_WordCursor_def wordsRemaining_def readUIntBE_def readBytes_def
  slice_def rel_index_def fold_words_zeros convertWords_zeros Let_def

text \<open>
  C7 (as stated, refuted). The claim says that decode fails with a truncation error when
  fewer than 104 words follow the 7-word timestamp, or when a read passes the end of the
  words. A stream of 110 words has 103 words after the timestamp: the signature read
  takes them all, the read of the recovery flag finds no word left and returns 0, and
  \<open>decode\<close> returns an invoice once the signature is accepted.
\<close>

theorem decode_short_stream_counterexample:
  "decode toy ''lnbc'' (replicate 110 0) =
     Inr \<lparr>inv_value = None, network = ''bc'', timestamp = 0, inv_fields = [],
          unknownFields = [],
          signature = \<lparr>sig_r = replicate 32 0, sig_s = replicate 32 0, recoveryFlag = 0\<rparr>,
          pubkey = replicate 33 2, hashData = replicate 32 8, usedSigRecovery = False\<rparr>"
  by (simp add: decode_def parse_lnbc cursor_eval decode_fields_done toy_def)

lemma fold_words_single: "fold_words [a] = ucast a"
  by (simp add: fold_words_def)

lemma fold_words_pair: "fold_words [a, b] = push_bit 5 (ucast a) OR ucast b"
  by (simp add: fold_words_def)

subsection \<open>Padding\<close>

lemma padded_stream_entry:
  "read_entry toy \<lparr>words = padded_stream, position = 7\<rparr> =
     Inr (\<lparr>words = padded_stream, position = 10\<rparr>, Padding)"
  by (simp add: padded_stream_def read_entry_def cursor_eval fold_words_single fold_words_pair)

text \<open>
  C2 (as stated, refuted). The claim says that a type-0 entry consumes one word, the type
  word, and that no length words are read for it. In \<open>padded_stream\<close> the word at position
  7 is 0 and 107 words remain; the round leaves the cursor at position 10, not 8, and the
  loop then stops with exactly 104 words remaining: the words \<open>3, 5\<close> were read as the
  length of the padding entry, not as the start of another entry.
\<close>

theorem padding_one_word_counterexample:
  "read_entry toy \<lparr>words = padded_stream, position = 7\<rparr> =
     Inr (\<lparr>words = padded_stream, position = 10\<rparr>, Padding)
   \<and> decode_fields toy \<lparr>words = padded_stream, position = 7\<rparr> [] [] =
     Inr (\<lparr>words = padded_stream, position = 10\<rparr>, [], [])"
  using padded_stream_entry
  by (simp add: padded_stream_def decode_fields_step decode_fields_done wordsRemaining_def)

text \<open>
  C2 (amended). For every word stream being decoded, a type-0 (padding) entry consumes
  exactly three words: the type word and the two length words, which are read before the
  type is looked at. No value words are read for it, and the loop continues with the
  entry that starts three words after the padding word.
\<close>

theorem padding_consumes_three_words:
  assumes "104 < wordsRemaining c" and "fst (readUIntBE c 1) = 0"
  shows "read_entry env c = Inr (c\<lparr>position := position c + 3\<rparr>, Padding)
       \<and> decode_fields env c fs us = decode_fields env (c\<lparr>position := position c + 3\<rparr>) fs us"
proof -
  have re: "read_entry env c = Inr (c\<lparr>position := position c + 3\<rparr>, Padding)"
    using assms(2) by (simp add: read_entry_def split_def Let_def readUIntBE_def)
  then show ?thesis using assms(1) by (simp add: decode_fields_step)
qed

theorem padding_consumes_three_words_witness:
  "104 < wordsRemaining \<lparr>words = padded_stream, position = 7\<rparr>
   \<and> fst (readUIntBE \<lparr>words = padded_stream, position = 7\<rparr> 1) = 0
   \<and> read_entry toy \<lparr>words = padded_stream, position = 7\<rparr> =
       Inr (\<lparr>words = padded_stream, position = 10\<rparr>, Padding)
   \<and> decode_fields toy \<lparr>words = padded_stream, position = 7\<rparr> [] [] =
       decode_fields toy \<lparr>words = padded_stream, position = 10\<rparr> [] []"
proof -
  have h1: "104 < wordsRemaining \<lparr>words = padded_stream, position = 7\<rparr>"
    by (simp add: padded_stream_def wordsRemaining_def)
  have h2: "fst (readUIntBE \<lparr>words = padded_stream, position = 7\<rparr> 1) = 0"
    by (simp add: padded_stream_def cursor_eval fold_words_single)
  from padding_consumes_three_words[OF h1 h2, of toy "[]" "[]"] h1 h2 show ?thesis
    by simp
qed

subsection \<open>Reads past the end of the words\<close>

lemma convertWords_Nil: "convertWords [] ib ob pad = []"
  by (simp add: convertWords_def)

lemma slice_past_end:
  "int (length xs) \<le> p \<Longrightarrow> 0 \<le> n \<Longrightarrow> slice xs p (p + n) = []"
  by (simp add: slice_def rel_index_def Let_def)

lemma slice_tail:
  "length xs \<le> 110 \<Longrightarrow> slice xs 7 110 = drop 7 xs"
  by (cases "7 \<le> length xs") (simp_all add: slice_def rel_index_def Let_def min_def)

lemma slice_head: "slice xs 0 7 = take 7 xs"
  by (cases "7 \<le> length xs") (simp_all add: slice_def rel_index_def Let_def min_def)

text \<open>
  C7 (amended). The word cursor has no bounds check. A read that starts at or past the
  end of the words returns 0 (\<open>readUIntBE\<close>) or the empty buffer (\<open>readBytes\<close>) and still
  advances the position by the count requested. For every input with fewer than 104
  words after the 7-word timestamp, \<open>decode\<close> reads no field, takes the words after the
  timestamp as the signature and 0 as the recovery flag, and fails only if the prefix
  is rejected or if recovery or verification of that signature fails; otherwise it
  returns the invoice built from the short read.
\<close>

theorem decode_short_stream:
  "(int (length (words c)) \<le> position c \<and> 0 \<le> n \<longrightarrow>
      readUIntBE c n = (0, c\<lparr>position := position c + n\<rparr>)
      \<and> readBytes c n pad = ([], c\<lparr>position := position c + n\<rparr>))
   \<and> (length ws < 111 \<longrightarrow>
      decode env p ws =
        (case parsePrefix p of
           Inl e \<Rightarrow> Inl e
         | Inr (net, v) \<Rightarrow>
             (let sg = map of_nat (convertWords (map unat (drop 7 ws)) 5 8 False);
                  dg = sha256 env (map of_char p @ map of_nat
                        (convertWords (map unat (slice ws 0 (int (length ws) - 104))) 5 8 True))
              in case ecdsaRecovery env dg sg 0 of
                   None \<Rightarrow> Inl RecoveryFailed
                 | Some k \<Rightarrow>
                     (case ecdsaVerify env k dg sg of
                        Some True \<Rightarrow>
                          Inr \<lparr>inv_value = v, network = net,
                               timestamp = sint (fold_words (take 7 ws)),
                               inv_fields = [], unknownFields = [],
                               signature = \<lparr>sig_r = slice sg 0 32,
                                            sig_s = slice sg 32 (int (length sg)),
                                            recoveryFlag = 0\<rparr>,
                               pubkey = k, hashData = dg, usedSigRecovery = False\<rparr>
                      | _ \<Rightarrow> Inl SignatureInvalid))))"
  (is "_ \<and> (_ \<longrightarrow> ?D)")
proof (intro conjI impI)
  assume "int (length (words c)) \<le> position c \<and> 0 \<le> n"
  then show "readUIntBE c n = (0, c\<lparr>position := position c + n\<rparr>)"
    by (simp add: readUIntBE_def slice_past_end fold_words_Nil)
next
  assume "int (length (words c)) \<le> position c \<and> 0 \<le> n"
  then show "readBytes c n pad = ([], c\<lparr>position := position c + n\<rparr>)"
    by (simp add: readBytes_def slice_past_end convertWords_Nil)
next
  assume len: "length ws < 111"
  let ?c1 = "\<lparr>words = ws, position = 7\<rparr>"
  have loop: "decode_fields env ?c1 [] [] = Inr (?c1, [], [])"
    using len by (simp add: decode_fields_done wordsRemaining_def)
  have ts: "readUIntBE (new_WordCursor ws) 7 = (sint (fold_words (take 7 ws)), ?c1)"
    by (simp add: readUIntBE_def new_WordCursor_def slice_head)
  have sg: "readBytes ?c1 103 False =
      (map of_nat (convertWords (map unat (drop 7 ws)) 5 8 False), \<lparr>words = ws, position = 110\<rparr>)"
    using len by (simp add: readBytes_def slice_tail)
  have fl: "readUIntBE \<lparr>words = ws, position = 110\<rparr> 1 = (0, \<lparr>words = ws, position = 111\<rparr>)"
    using len slice_past_end[of ws 110 1] by (simp add: readUIntBE_def fold_words_Nil)
  have pre: "readBytes \<lparr>words = ws, position = 0\<rparr> (int (length ws) - 104) True =
      (map of_nat (convertWords (map unat (slice ws 0 (int (length ws) - 104))) 5 8 True),
       \<lparr>words = ws, position = int (length ws) - 104\<rparr>)"
    by (simp add: readBytes_def)
  show ?D
    unfolding decode_def
    by (simp add: ts loop sg fl pre Let_def split: sum.splits option.splits bool.splits prod.splits)
qed


theorem decode_short_stream_witness:
  "readUIntBE \<lparr>words = [1, 2], position = 2\<rparr> 7 = (0, \<lparr>words = [1, 2], position = 9\<rparr>)
   \<and> readBytes \<lparr>words = [1, 2], position = 2\<rparr> 7 False = ([], \<lparr>words = [1, 2], position = 9\<rparr>)
   \<and> decode toy ''lnbc'' (replicate 109 0) = Inl RecoveryFailed"
  using decode_short_stream[of "\<lparr>words = [1, 2], position = 2\<rparr>" 7 False
      "replicate 109 0" toy "''lnbc''"]
  by (simp add: parse_lnbc convertWords_zeros toy_def Let_def)

subsection \<open>The length of a regrouping\<close>

lemma emit_groups_length:
  "0 < ob \<Longrightarrow> length (fst (emit_groups ob v b)) = b div ob \<and> snd (emit_groups ob v b) = b mod ob"
proof (induction b rule: less_induct)
  case (less b)
  show ?case
  proof (cases "ob \<le> b")
    case True
    with less.prems have "b - ob < b" by simp
    from less.IH[OF this less.prems] True less.prems show ?thesis
      by (subst (1 2) emit_groups.simps) (simp add: Let_def split_def le_div_geq le_mod_geq)
  next
    case False
    then show ?thesis by (subst (1 2) emit_groups.simps) simp
  qed
qed

lemma convert_loop_length:
  "0 < ob \<Longrightarrow> b < ob \<Longrightarrow>
   length (fst (convert_loop ib ob v b xs)) = (b + ib * length xs) div ob
   \<and> snd (snd (convert_loop ib ob v b xs)) = (b + ib * length xs) mod ob"
proof (induction xs arbitrary: v b)
  case Nil
  then show ?case by simp
next
  case (Cons x xs)
  let ?v = "(v * 2 ^ ib + x) mod 2 ^ (ib + ob)"
  have lt: "(b + ib) mod ob < ob" using Cons.prems(1) by simp
  note eg = emit_groups_length[OF Cons.prems(1), of ?v "b + ib"]
  note ih = Cons.IH[OF Cons.prems(1) lt, of ?v]
  show ?case
    using eg ih div_carry[OF Cons.prems(1), of "b + ib" "ib * length xs"]
      mod_carry[of "b + ib" ob "ib * length xs"]
    by (simp add: Let_def split_def add.assoc)
qed

lemma length_convertWords:
  "0 < ob \<Longrightarrow> length (convertWords xs ib ob pad) =
     (ib * length xs) div ob + (if pad \<and> 0 < (ib * length xs) mod ob then 1 else 0)"
  using convert_loop_length[of ob 0 ib 0 xs]
  by (simp add: convertWords_def split_def Let_def)


subsection \<open>The collaborator instance, unfolded\<close>

lemma toy_sha256: "sha256 toy bs = replicate 32 (of_nat (length bs))"
  by (simp add: toy_def)

lemma toy_ecdsaRecovery:
  "ecdsaRecovery toy dg sg flag =
     (if length sg = 64 \<and> 0 \<le> flag \<and> flag \<le> 3 then Some (replicate 33 2) else None)"
  by (simp add: toy_def)

lemma toy_ecdsaVerify:
  "ecdsaVerify toy k dg sg = (if length sg = 64 then Some (length k = 33) else None)"
  by (simp add: toy_def)

lemma toy_ecdsaSign: "ecdsaSign toy dg k = Some (replicate 64 0, 0)"
  by (simp add: toy_def)

lemmas toy_eval = toy_sha256 toy_ecdsaRecovery toy_ecdsaVerify toy_ecdsaSign

subsection \<open>The payee field and signature recovery\<close>

lemma payee_stream_type: "readUIntBE \<lparr>words = payee_stream, position = 7\<rparr> 1 = (19, \<lparr>words = payee_stream, position = 8\<rparr>)"
  by (simp add: payee_stream_def cursor_eval fold_words_single)

lemma payee_stream_len: "readUIntBE \<lparr>words = payee_stream, position = 8\<rparr> 2 = (53, \<lparr>words = payee_stream, position = 10\<rparr>)"
  by (simp add: payee_stream_def cursor_eval fold_words_pair)

lemma payee_stream_value: "readBytes \<lparr>words = payee_stream, position = 10\<rparr> 53 False = (replicate 33 0, \<lparr>words = payee_stream, position = 63\<rparr>)"
  by (simp add: payee_stream_def cursor_eval)

lemma payee_stream_entry:
  "read_entry toy \<lparr>words = payee_stream, position = 7\<rparr> =
     Inr (\<lparr>words = payee_stream, position = 63\<rparr>, Typed (19, Bytes (replicate 33 0)))"
  by (simp add: read_entry_def payee_stream_type payee_stream_len payee_stream_value)

lemma length_payee_stream: "length payee_stream = 167"
  by (simp add: payee_stream_def)

lemma payee_stream_fields:
  "decode_fields toy \<lparr>words = payee_stream, position = 7\<rparr> [] [] =
     Inr (\<lparr>words = payee_stream, position = 63\<rparr>, [(19, Bytes (replicate 33 0))], [])"
  by (simp add: decode_fields_step decode_fields_done wordsRemaining_def payee_stream_entry
      length_payee_stream)

lemma payee_stream_timestamp: "readUIntBE (new_WordCursor payee_stream) 7 = (0, \<lparr>words = payee_stream, position = 7\<rparr>)"
  by (simp add: payee_stream_def cursor_eval)

lemma payee_stream_signature: "readBytes \<lparr>words = payee_stream, position = 63\<rparr> 103 False = (replicate 64 0, \<lparr>words = payee_stream, position = 166\<rparr>)"
  by (simp add: payee_stream_def cursor_eval)

lemma payee_stream_flag: "readUIntBE \<lparr>words = payee_stream, position = 166\<rparr> 1 = (0, \<lparr>words = payee_stream, position = 167\<rparr>)"
  by (simp add: payee_stream_def cursor_eval fold_words_single)

lemma payee_stream_preimage: "length (fst (readBytes \<lparr>words = payee_stream, position = 0\<rparr> 63 True)) = 40"
  by (simp add: payee_stream_def readBytes_def slice_def rel_index_def length_convertWords)

lemma slice_signature_zeros: "slice (replicate 64 (0::byte)) 0 32 = replicate 32 0" "slice (replicate 64 (0::byte)) 32 64 = replicate 32 0"
  by (simp_all add: slice_def rel_index_def)

text \<open>
  C1 (code evaluated at the failing inputs). The claim says that \<open>used_sig_recovery\<close> is
  false when a payee field is present and true when the key was recovered from the
  signature. The source ends with \<open>result.usedSigRecovery = !!payeeNodeField\<close>, the
  opposite. \<open>payee_stream\<close> carries a 53-word tag-19 entry: the decoded \<open>pubkey\<close> is that
  field's value and \<open>usedSigRecovery\<close> is true. The stream of 111 zero words carries no
  field: the key is the recovered one and \<open>usedSigRecovery\<close> is false.
\<close>

theorem usedSigRecovery_inverted:
  "decode toy ''lnbc'' payee_stream =
     Inr \<lparr>inv_value = None, network = ''bc'', timestamp = 0,
          inv_fields = [(19, Bytes (replicate 33 0))], unknownFields = [],
          signature = \<lparr>sig_r = replicate 32 0, sig_s = replicate 32 0, recoveryFlag = 0\<rparr>,
          pubkey = replicate 33 0, hashData = replicate 32 44, usedSigRecovery = True\<rparr>
   \<and> decode toy ''lnbc'' (replicate 111 0) =
     Inr \<lparr>inv_value = None, network = ''bc'', timestamp = 0, inv_fields = [],
          unknownFields = [],
          signature = \<lparr>sig_r = replicate 32 0, sig_s = replicate 32 0, recoveryFlag = 0\<rparr>,
          pubkey = replicate 33 2, hashData = replicate 32 9, usedSigRecovery = False\<rparr>"
  (is "?with_payee \<and> ?without")
proof
  show ?with_payee
    using payee_stream_preimage
    by (simp add: decode_def parse_lnbc payee_stream_timestamp payee_stream_fields
        payee_stream_signature payee_stream_flag slice_signature_zeros split_def Let_def
        length_payee_stream toy_eval)
  show ?without
    by (simp add: decode_def parse_lnbc cursor_eval fold_words_single decode_fields_done
        toy_eval)
qed

subsection \<open>What the field loop preserves\<close>

lemma readUIntBE_snd: "snd (readUIntBE c n) = c\<lparr>position := position c + n\<rparr>"
  by (simp add: readUIntBE_def Let_def)

lemma readBytes_snd: "snd (readBytes c n pad) = c\<lparr>position := position c + n\<rparr>"
  by (simp add: readBytes_def Let_def)

lemma type_cases:
  fixes t :: int
  obtains "t = 0" | "t = 1" | "t = 3" | "t = 6" | "t = 9" | "t = 13" | "t = 19"
    | "t = 23" | "t = 24"
    | "t \<noteq> 0 \<and> t \<noteq> 1 \<and> t \<noteq> 3 \<and> t \<noteq> 6 \<and> t \<noteq> 9 \<and> t \<noteq> 13
          \<and> t \<noteq> 19 \<and> t \<noteq> 23 \<and> t \<noteq> 24"
  by argo

lemma read_entry_words:
  assumes re: "read_entry env c = Inr (c', e)"
  shows "words c' = words c"
proof (cases "fst (readUIntBE c 1)" rule: type_cases)
  case 1
  with re show ?thesis
    by (simp add: read_entry_def split_def Let_def, auto simp: readUIntBE_snd readBytes_snd split: if_splits)
next
  case 2
  with re show ?thesis
    by (simp add: read_entry_def split_def Let_def, auto simp: readUIntBE_snd readBytes_snd split: if_splits)
next
  case 3
  with re show ?thesis
    by (simp add: read_entry_def split_def Let_def, auto simp: readUIntBE_snd readBytes_snd split: sum.splits)
next
  case 4
  with re show ?thesis
    by (simp add: read_entry_def split_def Let_def, auto simp: readUIntBE_snd readBytes_snd split: if_splits)
next
  case 5
  with re show ?thesis
    by (simp add: read_entry_def split_def Let_def, auto simp: readUIntBE_snd readBytes_snd split: if_splits)
next
  case 6
  with re show ?thesis
    by (simp add: read_entry_def split_def Let_def, auto simp: readUIntBE_snd readBytes_snd split: if_splits)
next
  case 7
  with re show ?thesis
    by (simp add: read_entry_def split_def Let_def, auto simp: readUIntBE_snd readBytes_snd split: if_splits)
next
  case 8
  with re show ?thesis
    by (simp add: read_entry_def split_def Let_def, auto simp: readUIntBE_snd readBytes_snd split: if_splits)
next
  case 9
  with re show ?thesis
    by (simp add: read_entry_def split_def Let_def, auto simp: readUIntBE_snd readBytes_snd split: if_splits)
next
  case 10
  with re show ?thesis
    by (simp add: read_entry_def split_def Let_def, auto simp: readUIntBE_snd readBytes_snd split: if_splits)
qed


lemma decode_fields_words:
  "decode_fields env c fs us = Inr (c', fs', us') \<Longrightarrow> words c' = words c"
proof (induction env c fs us rule: decode_fields.induct)
  case (1 env c fs us)
  show ?case
  proof (cases "104 < wordsRemaining c")
    case False
    with "1.prems" show ?thesis by (simp add: decode_fields_done)
  next
    case True
    with "1.prems" obtain c1 e where re: "read_entry env c = Inr (c1, e)"
      by (auto simp: decode_fields_step split: sum.splits)
    note w = read_entry_words[OF re]
    show ?thesis
    proof (cases e)
      case Padding
      with "1.IH"(1)[OF True re[unfolded Padding]] "1.prems" True re w show ?thesis
        by (simp add: decode_fields_step)
    next
      case (Typed f)
      with "1.IH"(2)[OF True re[unfolded Typed]] "1.prems" True re w show ?thesis
        by (simp add: decode_fields_step)
    next
      case (Untyped u)
      with "1.IH"(3)[OF True re[unfolded Untyped]] "1.prems" True re w show ?thesis
        by (simp add: decode_fields_step)
    qed
  qed
qed



subsection \<open>The signed digest\<close>

lemma slice_prefix:
  "104 \<le> length xs \<Longrightarrow> slice xs 0 (int (length xs) - 104) = take (length xs - 104) xs"
  by (simp add: slice_def rel_index_def Let_def nat_diff_distrib)

lemma decode_hashData:
  assumes dec: "decode env p ws = Inr iv" and len: "104 \<le> length ws"
  shows "hashData iv = preimage_digest env p ws"
proof -
  from dec obtain c2 fs us where
    df: "decode_fields env \<lparr>words = ws, position = 7\<rparr> [] [] = Inr (c2, fs, us)"
    by (auto simp: decode_def Let_def split_def readUIntBE_def new_WordCursor_def
        split: sum.splits)
  from decode_fields_words[OF df] have w: "words c2 = ws" by simp
  from dec df have "hashData iv =
      sha256 env (map of_char p @ fst (readBytes (c2\<lparr>position := 0\<rparr>) (int (length ws) - 104) True))"
    by (auto simp: decode_def Let_def split_def readUIntBE_snd readBytes_snd new_WordCursor_def
        split: sum.splits option.splits bool.splits)
  with w len show ?thesis
    by (simp add: preimage_digest_def readBytes_def slice_prefix)
qed


lemma length_uint_words: "length (uint_words v n) = n"
  by (induction n arbitrary: v) simp_all

lemma encode_digest:
  assumes enc: "encode env iv k = Inr (p, ws)"
    and sig64: "\<forall>dg sg rc. ecdsaSign env dg k = Some (sg, rc) \<longrightarrow> length sg = 64"
  shows "104 \<le> length ws
     \<and> (\<exists>sg rc. ecdsaSign env (preimage_digest env p ws) k = Some (sg, rc)
           \<and> drop (length ws - 104) ws =
               map of_nat (convertWords (map unat sg) 8 5 True)
               @ [ucast (word_of_int rc AND (31 :: 32 word))])"
proof -
  let ?amt = "case encodePico env (inv_value iv) of None \<Rightarrow> [] | Some a \<Rightarrow> a"
  let ?p = "''ln'' @ network iv @ ?amt"
  from enc obtain w1 where w1: "writeUIntBE (new_WordCursor []) (timestamp iv) 7 = Inr w1"
    by (auto simp: encode_def Let_def split: sum.splits)
  with enc obtain w2 where w2: "encodeData env (inv_fields iv) w1 = Inr w2"
    by (auto simp: encode_def Let_def split: sum.splits)
  let ?h = "sha256 env (map of_char ?p @
              map of_nat (convertWords (map unat (words w2)) 5 8 True))"
  from enc w1 w2 obtain sg rc where sign: "ecdsaSign env ?h k = Some (sg, rc)"
    by (auto simp: encode_def Let_def split: option.splits)
  let ?sw = "map of_nat (convertWords (map unat sg) 8 5 True) :: word5 list"
  from enc w1 w2 sign have p: "p = ?p"
    and ws: "ws = words w2 @ ?sw @ [ucast (word_of_int rc AND (31 :: 32 word))]"
    by (simp_all add: encode_def Let_def writeUIntBE_def writeBytes_def)
  from sig64 sign have "length sg = 64" by blast
  then have l: "length ?sw = 103"
    by (simp add: length_convertWords)
  from ws l have len: "length ws = length (words w2) + 104" by simp
  from ws len have tk: "take (length ws - 104) ws = words w2" by simp
  from ws len have dr: "drop (length ws - 104) ws =
      ?sw @ [ucast (word_of_int rc AND (31 :: 32 word))]" by simp
  from sign tk p have "ecdsaSign env (preimage_digest env p ws) k = Some (sg, rc)"
    by (simp add: preimage_digest_def)
  with len dr show ?thesis by auto
qed

text \<open>
  C8. For every successfully decoded invoice (of a stream that holds the 104 signature
  words), \<open>hashData\<close> is SHA-256 of the ASCII bytes of the prefix followed by the 8-bit
  regrouping, with padding, of the first \<open>length ws - 104\<close> words. And \<open>encode\<close> signs the
  digest of the same construction: with a signer that returns 64-byte signatures, the
  words it returns end in the 103 signature words and the recovery word, and the digest
  passed to \<open>ecdsaSign\<close> is the one of the prefix and the words written before them.
\<close>

theorem hash_data_preimage:
  "(decode env p ws = Inr iv \<and> 104 \<le> length ws \<longrightarrow> hashData iv = preimage_digest env p ws)
   \<and> (encode env iv' k = Inr (p', ws')
        \<and> (\<forall>dg sg rc. ecdsaSign env dg k = Some (sg, rc) \<longrightarrow> length sg = 64) \<longrightarrow>
      104 \<le> length ws'
      \<and> (\<exists>sg rc. ecdsaSign env (preimage_digest env p' ws') k = Some (sg, rc)
           \<and> drop (length ws' - 104) ws' =
               map of_nat (convertWords (map unat sg) 8 5 True)
               @ [ucast (word_of_int rc AND (31 :: 32 word))]))"
  using decode_hashData[of env p ws iv] encode_digest[of env iv' k p' ws'] by blast

lemma uint_words_zero: "uint_words 0 n = replicate n 0"
  by (induction n) (simp_all add: replicate_append_same)

lemma toy_encodePico_None: "encodePico toy None = None"
  by (simp add: toy_def toy_encodePico_def)

lemma zero_stream_split:
  "replicate 7 0 @ replicate 103 0 @ [0] = replicate 111 (0 :: word5)"
proof -
  have "replicate 111 (0 :: word5) = replicate (7 + (103 + 1)) 0" by simp
  also have "\<dots> = replicate 7 0 @ replicate 103 0 @ replicate 1 0"
    by (simp only: replicate_add)
  finally show ?thesis by simp
qed

lemma encode_no_fields:
  assumes "inv_value iv = None" "network iv = ''bc''" "timestamp iv = 0" "inv_fields iv = []"
  shows "encode toy iv k = Inr (''lnbc'', replicate 111 0)"
  using assms
  by (simp add: encode_def Let_def writeUIntBE_def writeBytes_def new_WordCursor_def
      uint_words_zero toy_encodePico_None toy_ecdsaSign convertWords_zeros zero_stream_split)

lemma plain_stream_decode:
  "decode toy ''lnbc'' (replicate 111 0) =
     Inr \<lparr>inv_value = None, network = ''bc'', timestamp = 0, inv_fields = [],
          unknownFields = [],
          signature = \<lparr>sig_r = replicate 32 0, sig_s = replicate 32 0, recoveryFlag = 0\<rparr>,
          pubkey = replicate 33 2, hashData = replicate 32 9, usedSigRecovery = False\<rparr>"
  by (simp add: decode_def parse_lnbc cursor_eval fold_words_single decode_fields_done
      toy_eval)

theorem hash_data_preimage_witness:
  "decode toy ''lnbc'' (replicate 111 0) =
     Inr \<lparr>inv_value = None, network = ''bc'', timestamp = 0, inv_fields = [],
          unknownFields = [],
          signature = \<lparr>sig_r = replicate 32 0, sig_s = replicate 32 0, recoveryFlag = 0\<rparr>,
          pubkey = replicate 33 2, hashData = replicate 32 9, usedSigRecovery = False\<rparr>
   \<and> preimage_digest toy ''lnbc'' (replicate 111 0) = replicate 32 9
   \<and> encode toy unknown_invoice [] = Inr (''lnbc'', replicate 111 0)
   \<and> (\<exists>sg rc. ecdsaSign toy (preimage_digest toy ''lnbc'' (replicate 111 0)) [] = Some (sg, rc)
         \<and> drop 7 (replicate 111 (0 :: word5)) =
             map of_nat (convertWords (map unat sg) 8 5 True)
             @ [ucast (word_of_int rc AND (31 :: 32 word))])"
proof -
  let ?iv = "\<lparr>inv_value = None, network = ''bc'', timestamp = 0, inv_fields = [],
          unknownFields = [],
          signature = \<lparr>sig_r = replicate 32 0, sig_s = replicate 32 0, recoveryFlag = 0\<rparr>,
          pubkey = replicate 33 2, hashData = replicate 32 9, usedSigRecovery = False\<rparr>"
  have d: "decode toy ''lnbc'' (replicate 111 0) = Inr ?iv" by (rule plain_stream_decode)
  have e: "encode toy unknown_invoice [] = Inr (''lnbc'', replicate 111 0)"
    by (rule encode_no_fields) (simp_all add: unknown_invoice_def)
  have s: "\<forall>dg sg rc. ecdsaSign toy dg [] = Some (sg, rc) \<longrightarrow> length sg = 64"
    by (simp add: toy_ecdsaSign)
  from hash_data_preimage[of toy "''lnbc''" "replicate 111 0" ?iv unknown_invoice "[]"
      "''lnbc''" "replicate 111 0"] d e s
  show ?thesis by auto
qed


subsection \<open>Entries of unknown type\<close>




























subsection \<open>The nonce counter\<close>

lemma counter_split: "k < 65536 \<Longrightarrow>
    unat (of_nat (k mod 256) :: byte) + 256 * unat (of_nat (k div 256) :: byte) = k"
proof -
  assume "k < 65536"
  then have d: "k div 256 < 256" by simp
  have "unat (of_nat (k mod 256) :: byte) = k mod 256"
    by (simp add: unat_of_nat)
  moreover from d have "unat (of_nat (k div 256) :: byte) = k div 256"
    by (simp add: unat_of_nat)
  ultimately show ?thesis by simp
qed

lemma read_counter: "k < 65536 \<Longrightarrow> readUInt16LE (counter_nonce k) 4 = Inr k"
  using counter_split[of k] by (simp add: readUInt16LE_def counter_nonce_def)

lemma write_counter:
  "j \<le> 65535 \<Longrightarrow> writeUInt16LE j (counter_nonce k) 4 = Inr (counter_nonce j)"
  by (simp add: writeUInt16LE_def counter_nonce_def)

lemma replicate_num: "replicate (numeral k) x = x # replicate (pred_numeral k) x"
  by (simp add: numeral_eq_Suc)

lemma counter_nonce_0: "counter_nonce 0 = zero_nonce"
  by (simp add: counter_nonce_def zero_nonce_def replicate_num)

lemma advance_sending_counter:
  assumes "sn st = counter_nonce k" and "k < 999"
  shows "advance_sending env st = Inr (st\<lparr>sn := counter_nonce (k + 1)\<rparr>)"
  using assms
  by (simp add: advance_sending_def incrementSendingNonce_def read_counter write_counter)

lemma advance_sending_rotate:
  assumes "sn st = counter_nonce 999"
  shows "advance_sending env st =
     Inr (st\<lparr>sk := drop 32 (hkdf env (ck st) (sk st)), ck := take 32 (hkdf env (ck st) (sk st)),
             sn := zero_nonce\<rparr>)"
  using assms
  by (simp add: advance_sending_def incrementSendingNonce_def read_counter write_counter
      rotateSendingKeys_def Let_def)

lemma advance_receiving_counter:
  assumes "rn st = counter_nonce k" and "k < 999"
  shows "advance_receiving env st = Inr (st\<lparr>rn := counter_nonce (k + 1)\<rparr>)"
  using assms
  by (simp add: advance_receiving_def incrementRecievingNonce_def read_counter write_counter)

lemma advance_receiving_rotate:
  assumes "rn st = counter_nonce 999"
  shows "advance_receiving env st =
     Inr (st\<lparr>rk := drop 32 (hkdf env (ck st) (rk st)), ck := take 32 (hkdf env (ck st) (rk st)),
             rn := zero_nonce\<rparr>)"
  using assms
  by (simp add: advance_receiving_def incrementRecievingNonce_def read_counter write_counter
      rotateRecievingKeys_def Let_def)

lemma nonce_ok_counter: "k \<le> 999 \<Longrightarrow> nonce_ok (counter_nonce k)"
  using counter_split[of k]
  by (simp add: nonce_ok_def counter_nonce_def replicate_num)

lemma nonce_ok_is_counter:
  assumes "nonce_ok n"
  shows "\<exists>k\<le>999. n = counter_nonce k"
proof -
  let ?k = "unat (n ! 4) + 256 * unat (n ! 5)"
  from assms have len: "length n = 12" and t: "take 4 n = replicate 4 0"
    and d: "drop 6 n = replicate 6 0" and k: "?k \<le> 999"
    by (simp_all add: nonce_ok_def)
  have a: "unat (n ! 4) < 256" using unsigned_less[of "n ! 4", where ?'a = nat] by simp
  have "?k mod 256 = unat (n ! 4)" using a by simp
  moreover have "?k div 256 = unat (n ! 5)" using a by simp
  ultimately have c: "counter_nonce ?k = replicate 4 0 @ [n ! 4, n ! 5] @ replicate 6 0"
    by (simp add: counter_nonce_def replicate_num)
  from len have "n = take 4 n @ n ! 4 # drop (Suc 4) n"
    by (intro id_take_nth_drop) simp
  moreover from len have "drop 5 n = n ! 5 # drop (Suc 5) n"
    by (intro Cons_nth_drop_Suc[symmetric]) simp
  ultimately have "n = take 4 n @ [n ! 4, n ! 5] @ drop 6 n" by simp
  with t d c have "n = counter_nonce ?k" by simp
  with k show ?thesis by blast
qed


subsection \<open>The handshake\<close>

lemma slice_act_key: "length a = 33 \<Longrightarrow> slice (x # a @ c) 1 34 = a"
  by (simp add: slice_def rel_index_def Let_def)

lemma slice_act_rest:
  "length a = 33 \<Longrightarrow> slice (x # a @ c) 34 (int (length (x # a @ c))) = c"
  by (simp add: slice_def rel_index_def Let_def)

lemma slice_act3_c: "length c = 49 \<Longrightarrow> slice (x # c @ t) 1 50 = c"
  by (simp add: slice_def rel_index_def Let_def)

lemma slice_act3_t:
  "length c = 49 \<Longrightarrow> slice (x # c @ t) 50 (int (length (x # c @ t))) = t"
  by (simp add: slice_def rel_index_def Let_def)

lemma new_NoiseState_sel:
  "ls (new_NoiseState env a b) = a" "es (new_NoiseState env a b) = b"
  "lp (new_NoiseState env a b) = getPublicKey env a"
  "ep (new_NoiseState env a b) = getPublicKey env b"
  "h (new_NoiseState env a b) = []" "ck (new_NoiseState env a b) = []"
  by (simp_all add: new_NoiseState_def)

lemma initiatorAct1_result:
  assumes "initiatorAct1 env st rs' = Inr (m, st')"
  shows "\<exists>ss. ecdh env rs' (es st) = Some ss
     \<and> ls st' = ls st \<and> lp st' = lp st \<and> es st' = es st \<and> ep st' = ep st
     \<and> ck st' = take 32 (hkdf env (sha256 env protocolName) ss)
     \<and> h st' = sha256 env (sha256 env (sha256 env (sha256 env (sha256 env protocolName @ prologue) @ rs') @ ep st)
            @ ccpEncrypt env (drop 32 (hkdf env (sha256 env protocolName) ss)) zero_nonce
                (sha256 env (sha256 env (sha256 env (sha256 env protocolName @ prologue) @ rs') @ ep st)) [])
     \<and> m = 0 # ep st @ ccpEncrypt env (drop 32 (hkdf env (sha256 env protocolName) ss)) zero_nonce
                (sha256 env (sha256 env (sha256 env (sha256 env protocolName @ prologue) @ rs') @ ep st)) []"
  using assms
  by (auto simp: initiatorAct1_def initialize_def Let_def split: option.splits)


lemma receiveAct1_result:
  assumes "receiveAct1 env st m = Inr st'"
  shows "\<exists>ss. ecdh env (slice m 1 34) (ls st) = Some ss
     \<and> ls st' = ls st \<and> lp st' = lp st \<and> es st' = es st \<and> ep st' = ep st
     \<and> re st' = slice m 1 34
     \<and> ck st' = take 32 (hkdf env (sha256 env protocolName) ss)
     \<and> h st' = sha256 env (sha256 env (sha256 env (sha256 env (sha256 env protocolName @ prologue) @ lp st)
                   @ slice m 1 34) @ slice m 34 (int (length m)))"
  using assms
  by (auto simp: receiveAct1_def initialize_def Let_def split: option.splits if_splits)

lemma recieveAct2_result:
  assumes "recieveAct2 env st = Inr (m, st')"
  shows "\<exists>ss. ecdh env (re st) (es st) = Some ss
     \<and> ls st' = ls st \<and> lp st' = lp st \<and> es st' = es st \<and> ep st' = ep st \<and> re st' = re st
     \<and> ck st' = take 32 (hkdf env (ck st) ss)
     \<and> temp_k2 st' = drop 32 (hkdf env (ck st) ss)
     \<and> h st' = sha256 env (sha256 env (h st @ ep st)
                   @ ccpEncrypt env (drop 32 (hkdf env (ck st) ss)) zero_nonce
                       (sha256 env (h st @ ep st)) [])
     \<and> m = 0 # ep st @ ccpEncrypt env (drop 32 (hkdf env (ck st) ss)) zero_nonce
                       (sha256 env (h st @ ep st)) []"
  using assms
  by (auto simp: recieveAct2_def Let_def split: option.splits)

lemma initiatorAct2_result:
  assumes "initiatorAct2 env st m = Inr st'"
  shows "\<exists>ss. ecdh env (slice m 1 34) (es st) = Some ss
     \<and> ls st' = ls st \<and> lp st' = lp st \<and> es st' = es st \<and> ep st' = ep st
     \<and> re st' = slice m 1 34
     \<and> ck st' = take 32 (hkdf env (ck st) ss)
     \<and> temp_k2 st' = drop 32 (hkdf env (ck st) ss)
     \<and> h st' = sha256 env (sha256 env (h st @ slice m 1 34) @ slice m 34 (int (length m)))"
  using assms
  by (auto simp: initiatorAct2_def Let_def split: option.splits if_splits)

lemma initiatorAct3_result:
  assumes "initiatorAct3 env st = Inr (m, st')"
  shows "\<exists>ss t. ecdh env (re st) (ls st) = Some ss
     \<and> ck st' = take 32 (hkdf env (ck st) ss)
     \<and> sk st' = take 32 (hkdf env (ck st') [])
     \<and> rk st' = drop 32 (hkdf env (ck st') [])
     \<and> sn st' = zero_nonce \<and> rn st' = zero_nonce
     \<and> m = 0 # ccpEncrypt env (temp_k2 st) act3_nonce (h st) (lp st) @ t"
  using assms
  by (auto simp: initiatorAct3_def Let_def split: option.splits)

lemma receiveAct3_result:
  assumes "receiveAct3 env st m = Inr st'"
  shows "\<exists>rs' ss. ccpDecrypt env (temp_k2 st) act3_nonce (h st) (slice m 1 50) = Some rs'
     \<and> ecdh env rs' (es st) = Some ss
     \<and> ck st' = take 32 (hkdf env (ck st) ss)
     \<and> rk st' = take 32 (hkdf env (ck st') [])
     \<and> sk st' = drop 32 (hkdf env (ck st') [])
     \<and> sn st' = zero_nonce \<and> rn st' = zero_nonce"
  using assms
  by (auto simp: receiveAct3_def Let_def split: option.splits if_splits)

text \<open>
  C3. Take a cryptographic substrate with 33-byte public keys, an ECDH on which both
  sides agree, and an AEAD that adds 16 bytes and decrypts what it encrypted. For every
  run of the six acts over the same keys that completes without error (the initiator
  knowing the responder's static public key), the initiator's \<open>sk\<close> is the first 32
  bytes and its \<open>rk\<close> the bytes from offset 32 of \<open>HKDF(ck, empty)\<close>, the responder's \<open>rk\<close>
  is the first 32 bytes and its \<open>sk\<close> the rest, both sides hold the same \<open>ck\<close>, and so
  the initiator's \<open>sk\<close> is the responder's \<open>rk\<close> and the initiator's \<open>rk\<close> the responder's
  \<open>sk\<close>.
\<close>

theorem handshake_keys_agree:
  assumes pk: "\<forall>k. length (getPublicKey env k) = 33"
    and dh: "\<forall>a b. ecdh env (getPublicKey env a) b = ecdh env (getPublicKey env b) a"
    and al: "\<forall>k n ad p. length (ccpEncrypt env k n ad p) = length p + 16"
    and ai: "\<forall>k n ad p. ccpDecrypt env k n ad (ccpEncrypt env k n ad p) = Some p"
    and a1: "initiatorAct1 env (new_NoiseState env ls_i es_i)
               (lp (new_NoiseState env ls_r es_r)) = Inr (m1, i1)"
    and b1: "receiveAct1 env (new_NoiseState env ls_r es_r) m1 = Inr r1"
    and b2: "recieveAct2 env r1 = Inr (m2, r2)"
    and a2: "initiatorAct2 env i1 m2 = Inr i2"
    and a3: "initiatorAct3 env i2 = Inr (m3, i3)"
    and b3: "receiveAct3 env r2 m3 = Inr r3"
  shows "sk i3 = take 32 (hkdf env (ck i3) []) \<and> rk i3 = drop 32 (hkdf env (ck i3) [])
       \<and> rk r3 = take 32 (hkdf env (ck r3) []) \<and> sk r3 = drop 32 (hkdf env (ck r3) [])
       \<and> ck i3 = ck r3 \<and> sk i3 = rk r3 \<and> rk i3 = sk r3"
proof -
  let ?I0 = "new_NoiseState env ls_i es_i"
  let ?R0 = "new_NoiseState env ls_r es_r"
  note sel = new_NoiseState_sel
  from initiatorAct1_result[OF a1] obtain ss1 where
    i1: "ecdh env (getPublicKey env ls_r) es_i = Some ss1"
      "ls i1 = ls_i" "lp i1 = getPublicKey env ls_i" "es i1 = es_i" "ep i1 = getPublicKey env es_i"
      "ck i1 = take 32 (hkdf env (sha256 env protocolName) ss1)"
    and hi1: "h i1 = sha256 env (sha256 env (sha256 env (sha256 env (sha256 env protocolName @ prologue)
                 @ getPublicKey env ls_r) @ getPublicKey env es_i)
            @ ccpEncrypt env (drop 32 (hkdf env (sha256 env protocolName) ss1)) zero_nonce
                (sha256 env (sha256 env (sha256 env (sha256 env protocolName @ prologue)
                   @ getPublicKey env ls_r) @ getPublicKey env es_i)) [])"
    and m1: "m1 = 0 # getPublicKey env es_i
            @ ccpEncrypt env (drop 32 (hkdf env (sha256 env protocolName) ss1)) zero_nonce
                (sha256 env (sha256 env (sha256 env (sha256 env protocolName @ prologue)
                   @ getPublicKey env ls_r) @ getPublicKey env es_i)) []"
    by (auto simp: sel)
  from pk have l33: "\<And>k. length (getPublicKey env k) = 33" by simp
  have m1k: "slice m1 1 34 = getPublicKey env es_i"
    unfolding m1 by (rule slice_act_key) (rule l33)
  have m1c: "slice m1 34 (int (length m1)) =
      ccpEncrypt env (drop 32 (hkdf env (sha256 env protocolName) ss1)) zero_nonce
                (sha256 env (sha256 env (sha256 env (sha256 env protocolName @ prologue)
                   @ getPublicKey env ls_r) @ getPublicKey env es_i)) []"
    unfolding m1 by (rule slice_act_rest) (rule l33)
  from dh i1(1) have dh1: "ecdh env (getPublicKey env es_i) ls_r = Some ss1" by simp
  from receiveAct1_result[OF b1] dh1 have
    r1: "ls r1 = ls_r" "lp r1 = getPublicKey env ls_r" "es r1 = es_r"
      "ep r1 = getPublicKey env es_r" "re r1 = getPublicKey env es_i"
      "ck r1 = ck i1" "h r1 = h i1"
    by (auto simp: sel m1k m1c i1 hi1)
  from recieveAct2_result[OF b2] obtain ss2 where
    r2: "ecdh env (getPublicKey env es_i) es_r = Some ss2"
      "es r2 = es_r" "re r2 = getPublicKey env es_i"
      "ck r2 = take 32 (hkdf env (ck i1) ss2)"
      "temp_k2 r2 = drop 32 (hkdf env (ck i1) ss2)"
    and hr2: "h r2 = sha256 env (sha256 env (h i1 @ getPublicKey env es_r)
                   @ ccpEncrypt env (drop 32 (hkdf env (ck i1) ss2)) zero_nonce
                       (sha256 env (h i1 @ getPublicKey env es_r)) [])"
    and m2: "m2 = 0 # getPublicKey env es_r
                   @ ccpEncrypt env (drop 32 (hkdf env (ck i1) ss2)) zero_nonce
                       (sha256 env (h i1 @ getPublicKey env es_r)) []"
    by (auto simp: r1)
  have m2k: "slice m2 1 34 = getPublicKey env es_r"
    unfolding m2 by (rule slice_act_key) (rule l33)
  have m2c: "slice m2 34 (int (length m2)) =
      ccpEncrypt env (drop 32 (hkdf env (ck i1) ss2)) zero_nonce
                       (sha256 env (h i1 @ getPublicKey env es_r)) []"
    unfolding m2 by (rule slice_act_rest) (rule l33)
  from dh r2(1) have dh2: "ecdh env (getPublicKey env es_r) es_i = Some ss2" by simp
  from initiatorAct2_result[OF a2] dh2 have
    i2: "ls i2 = ls_i" "lp i2 = getPublicKey env ls_i" "re i2 = getPublicKey env es_r"
      "ck i2 = ck r2" "temp_k2 i2 = temp_k2 r2" "h i2 = h r2"
    by (auto simp: m2k m2c i1 r2 hr2)
  let ?c3 = "ccpEncrypt env (temp_k2 r2) act3_nonce (h r2) (getPublicKey env ls_i)"
  from initiatorAct3_result[OF a3] obtain ss3 t where
    i3: "ecdh env (getPublicKey env es_r) ls_i = Some ss3"
      "ck i3 = take 32 (hkdf env (ck r2) ss3)"
      "sk i3 = take 32 (hkdf env (ck i3) [])"
      "rk i3 = drop 32 (hkdf env (ck i3) [])"
    and m3: "m3 = 0 # ?c3 @ t"
    by (auto simp: i2)
  from al l33 have c49: "length ?c3 = 49" by simp
  have m3c: "slice m3 1 50 = ?c3"
    unfolding m3 by (rule slice_act3_c) (rule c49)
  from ai have dec: "ccpDecrypt env (temp_k2 r2) act3_nonce (h r2) ?c3 = Some (getPublicKey env ls_i)"
    by simp
  from dh i3(1) have dh3: "ecdh env (getPublicKey env ls_i) es_r = Some ss3" by simp
  from receiveAct3_result[OF b3] dec dh3 have
    r3: "ck r3 = take 32 (hkdf env (ck r2) ss3)"
      "rk r3 = take 32 (hkdf env (ck r3) [])"
      "sk r3 = drop 32 (hkdf env (ck r3) [])"
    by (auto simp: m3c r2)
  from i3 r3 show ?thesis by simp
qed


lemma length_pad32: "length (pad32 bs) = 32"
  by (simp add: pad32_def)

lemma pad32_idem: "pad32 (pad32 bs) = pad32 bs"
  by (simp add: pad32_def)

lemma map2_add_commute: "map2 (+) xs ys = map2 (+) ys (xs :: byte list)"
proof (induction xs arbitrary: ys)
  case Nil
  then show ?case by simp
next
  case (Cons x xs)
  then show ?case by (cases ys) (simp_all add: add.commute)
qed

lemma toy_getPublicKey: "getPublicKey toy k = 2 # pad32 k"
  by (simp add: toy_def)

lemma toy_ecdh: "ecdh toy p k = Some (map2 (+) (pad32 (tl p)) (pad32 k))"
  by (simp add: toy_def)

lemma toy_hkdf_length: "length (hkdf toy a b) = 64"
  by (simp add: toy_def length_pad32)

lemma toy_ccpEncrypt:
  "ccpEncrypt toy k n ad p = p @ replicate 16 (of_nat (length k + length n + length ad))"
  by (simp add: toy_def toy_tag_def)

lemma toy_ccpDecrypt:
  "ccpDecrypt toy k n ad c =
     (if 16 \<le> length c
         \<and> drop (length c - 16) c = replicate 16 (of_nat (length k + length n + length ad))
      then Some (take (length c - 16) c) else None)"
  by (simp add: toy_def toy_tag_def)

lemma toy_contracts:
  "\<forall>k. length (getPublicKey toy k) = 33"
  "\<forall>a b. ecdh toy (getPublicKey toy a) b = ecdh toy (getPublicKey toy b) a"
  "\<forall>k n ad p. length (ccpEncrypt toy k n ad p) = length p + 16"
  "\<forall>k n ad p. ccpDecrypt toy k n ad (ccpEncrypt toy k n ad p) = Some p"
  by (simp_all add: toy_getPublicKey toy_ecdh toy_ccpEncrypt toy_ccpDecrypt length_pad32
      pad32_idem map2_add_commute)

lemmas toy_lengths = toy_sha256 toy_hkdf_length length_pad32 toy_getPublicKey
  toy_ccpEncrypt toy_ccpDecrypt zero_nonce_def act3_nonce_def

lemma toy_initiatorAct1: "\<exists>m st'. initiatorAct1 toy st rs' = Inr (m, st')"
  by (simp add: initiatorAct1_def toy_ecdh Let_def)

lemma toy_recieveAct2: "\<exists>m st'. recieveAct2 toy st = Inr (m, st')"
  by (simp add: recieveAct2_def toy_ecdh Let_def)

lemma toy_initiatorAct3: "\<exists>m st'. initiatorAct3 toy st = Inr (m, st')"
  by (simp add: initiatorAct3_def toy_ecdh Let_def)

lemma toy_receive_act:
  assumes "m = 0 # getPublicKey toy k @ ccpEncrypt toy tk zero_nonce ad []"
    and "length tk = 32" and "length ad = 32"
  shows "length m = 50" "hd m = 0" "slice m 1 34 = getPublicKey toy k"
    "slice m 34 (int (length m)) = replicate 16 76"
  using assms
  by (simp_all add: toy_lengths slice_def rel_index_def)


lemma toy_act_message:
  "length tk = 32 \<Longrightarrow> length ad = 32 \<Longrightarrow>
   0 # getPublicKey toy k @ ccpEncrypt toy tk zero_nonce ad [] = 0 # (2 # pad32 k) @ replicate 16 76"
  by (simp add: toy_lengths)

lemma toy_receiveAct1:
  assumes "m = 0 # (2 # pad32 k) @ replicate 16 76"
  shows "\<exists>st'. receiveAct1 toy st m = Inr st'"
  using assms
  by (simp add: receiveAct1_def initialize_def Let_def toy_ecdh toy_lengths slice_def
      rel_index_def)

lemma toy_initiatorAct2:
  assumes "m = 0 # (2 # pad32 k) @ replicate 16 76"
  shows "\<exists>st'. initiatorAct2 toy st m = Inr st'"
  using assms
  by (simp add: initiatorAct2_def Let_def toy_ecdh toy_lengths slice_def rel_index_def)

lemma toy_act3_message:
  assumes "initiatorAct3 toy st = Inr (m, st')" and "length (temp_k2 st) = 32"
    and "length (h st) = 32"
  shows "m = 0 # (lp st @ replicate 16 76) @ replicate 16 76"
  using assms
  by (auto simp: initiatorAct3_def Let_def toy_ecdh toy_lengths)

lemma toy_receiveAct3:
  assumes "m = 0 # (p @ replicate 16 76) @ replicate 16 76" and "length p = 33"
    and "length (temp_k2 st) = 32" and "length (h st) = 32"
  shows "\<exists>st'. receiveAct3 toy st m = Inr st'"
  using assms
  by (simp add: receiveAct3_def Let_def toy_ecdh toy_lengths slice_def rel_index_def)


text \<open>
  The handshake run on the concrete instance, between the initiator with keys \<open>[1]\<close>, \<open>[2]\<close> and
  the responder with keys \<open>[3]\<close>, \<open>[4]\<close>: all six acts succeed.
\<close>

theorem handshake_keys_agree_witness:
  "(\<forall>k. length (getPublicKey toy k) = 33)
   \<and> (\<forall>a b. ecdh toy (getPublicKey toy a) b = ecdh toy (getPublicKey toy b) a)
   \<and> (\<forall>k n ad p. length (ccpEncrypt toy k n ad p) = length p + 16)
   \<and> (\<forall>k n ad p. ccpDecrypt toy k n ad (ccpEncrypt toy k n ad p) = Some p)
   \<and> (\<exists>m1 i1 r1 m2 r2 i2 m3 i3 r3.
         initiatorAct1 toy (new_NoiseState toy [1] [2]) (lp (new_NoiseState toy [3] [4]))
           = Inr (m1, i1)
       \<and> receiveAct1 toy (new_NoiseState toy [3] [4]) m1 = Inr r1
       \<and> recieveAct2 toy r1 = Inr (m2, r2)
       \<and> initiatorAct2 toy i1 m2 = Inr i2
       \<and> initiatorAct3 toy i2 = Inr (m3, i3)
       \<and> receiveAct3 toy r2 m3 = Inr r3
       \<and> sk i3 = take 32 (hkdf toy (ck i3) []) \<and> rk i3 = drop 32 (hkdf toy (ck i3) [])
       \<and> rk r3 = take 32 (hkdf toy (ck r3) []) \<and> sk r3 = drop 32 (hkdf toy (ck r3) [])
       \<and> ck i3 = ck r3 \<and> sk i3 = rk r3 \<and> rk i3 = sk r3)"
proof -
  let ?I0 = "new_NoiseState toy [1] [2]"
  let ?R0 = "new_NoiseState toy [3] [4]"
  obtain m1 i1 where a1: "initiatorAct1 toy ?I0 (lp ?R0) = Inr (m1, i1)"
    using toy_initiatorAct1 by blast
  from initiatorAct1_result[OF a1] have m1: "m1 = 0 # (2 # pad32 [2]) @ replicate 16 76"
    and i1: "lp i1 = 2 # pad32 [1]"
    by (auto simp: toy_lengths new_NoiseState_sel)
  obtain r1 where b1: "receiveAct1 toy ?R0 m1 = Inr r1"
    using toy_receiveAct1[OF m1] by blast
  from receiveAct1_result[OF b1] have r1: "ep r1 = 2 # pad32 [4]"
    by (auto simp: toy_lengths new_NoiseState_sel)
  obtain m2 r2 where b2: "recieveAct2 toy r1 = Inr (m2, r2)"
    using toy_recieveAct2 by blast
  from recieveAct2_result[OF b2] r1 have m2: "m2 = 0 # (2 # pad32 [4]) @ replicate 16 76"
    and r2: "length (temp_k2 r2) = 32" "length (h r2) = 32"
    by (auto simp: toy_lengths)
  obtain i2 where a2: "initiatorAct2 toy i1 m2 = Inr i2"
    using toy_initiatorAct2[OF m2] by blast
  from initiatorAct2_result[OF a2] i1 have i2: "lp i2 = 2 # pad32 [1]"
    "length (temp_k2 i2) = 32" "length (h i2) = 32"
    by (auto simp: toy_lengths)
  obtain m3 i3 where a3: "initiatorAct3 toy i2 = Inr (m3, i3)"
    using toy_initiatorAct3 by blast
  from toy_act3_message[OF a3 i2(2,3)] have m3: "m3 = 0 # (lp i2 @ replicate 16 76) @ replicate 16 76" .
  have l: "length (lp i2) = 33" by (simp add: i2 length_pad32)
  obtain r3 where b3: "receiveAct3 toy r2 m3 = Inr r3"
    using toy_receiveAct3[OF m3 l r2] by blast
  note c = toy_contracts
  from handshake_keys_agree[OF c a1 b1 b2 a2 a3 b3] a1 b1 b2 a2 a3 b3
  have "\<exists>m1 i1 r1 m2 r2 i2 m3 i3 r3.
         initiatorAct1 toy ?I0 (lp ?R0) = Inr (m1, i1)
       \<and> receiveAct1 toy ?R0 m1 = Inr r1
       \<and> recieveAct2 toy r1 = Inr (m2, r2)
       \<and> initiatorAct2 toy i1 m2 = Inr i2
       \<and> initiatorAct3 toy i2 = Inr (m3, i3)
       \<and> receiveAct3 toy r2 m3 = Inr r3
       \<and> sk i3 = take 32 (hkdf toy (ck i3) []) \<and> rk i3 = drop 32 (hkdf toy (ck i3) [])
       \<and> rk r3 = take 32 (hkdf toy (ck r3) []) \<and> sk r3 = drop 32 (hkdf toy (ck r3) [])
       \<and> ck i3 = ck r3 \<and> sk i3 = rk r3 \<and> rk i3 = sk r3"
    by blast
  with c show ?thesis by blast
qed



subsection \<open>Rotation of the sending key\<close>

lemma encryptMessage_counter:
  assumes "sn st = counter_nonce k" and "k < 998" and "length m \<le> 65535"
  shows "encryptMessage env st m =
     (Inr (ccpEncrypt env (sk st) (counter_nonce k) []
              [of_nat (length m div 256), of_nat (length m mod 256)]
           @ ccpEncrypt env (sk st) (counter_nonce (k + 1)) [] m),
      [counter_nonce k, counter_nonce (k + 1)],
      st\<lparr>sn := counter_nonce (k + 2)\<rparr>)"
proof -
  from assms have a: "advance_sending env st = Inr (st\<lparr>sn := counter_nonce (k + 1)\<rparr>)"
    by (intro advance_sending_counter) simp_all
  from assms have b: "advance_sending env (st\<lparr>sn := counter_nonce (k + 1)\<rparr>)
      = Inr (st\<lparr>sn := counter_nonce (k + 1)\<rparr>\<lparr>sn := counter_nonce (k + 1 + 1)\<rparr>)"
    by (intro advance_sending_counter) simp_all
  from assms a b show ?thesis
    by (simp add: encryptMessage_def Let_def)
qed

lemma encryptMessage_rotate:
  assumes "sn st = counter_nonce 998" and "length m \<le> 65535"
  shows "encryptMessage env st m =
     (Inr (ccpEncrypt env (sk st) (counter_nonce 998) []
              [of_nat (length m div 256), of_nat (length m mod 256)]
           @ ccpEncrypt env (sk st) (counter_nonce 999) [] m),
      [counter_nonce 998, counter_nonce 999],
      st\<lparr>sk := drop 32 (hkdf env (ck st) (sk st)), ck := take 32 (hkdf env (ck st) (sk st)),
         sn := zero_nonce\<rparr>)"
proof -
  from assms have a: "advance_sending env st = Inr (st\<lparr>sn := counter_nonce (998 + 1)\<rparr>)"
    by (intro advance_sending_counter) simp_all
  have b: "advance_sending env (st\<lparr>sn := counter_nonce 999\<rparr>)
      = Inr (st\<lparr>sn := counter_nonce 999\<rparr>\<lparr>sk := drop 32 (hkdf env (ck (st\<lparr>sn := counter_nonce 999\<rparr>)) (sk (st\<lparr>sn := counter_nonce 999\<rparr>))),
           ck := take 32 (hkdf env (ck (st\<lparr>sn := counter_nonce 999\<rparr>)) (sk (st\<lparr>sn := counter_nonce 999\<rparr>))), sn := zero_nonce\<rparr>)"
    by (intro advance_sending_rotate) simp
  from assms a b show ?thesis
    by (simp add: encryptMessage_def Let_def)
qed

lemma upt_two: "k + 2 \<le> n \<Longrightarrow> [k..<n] = k # (k + 1) # [k + 2..<n]"
  by (simp add: upt_conv_Cons)

lemma send_all_counter:
  assumes "sn st = counter_nonce k" and "list_all (\<lambda>m. length m \<le> 65535) ms"
    and "k + 2 * length ms \<le> 998"
  shows "send_all env st ms =
     Inr (map counter_nonce [k..<k + 2 * length ms], st\<lparr>sn := counter_nonce (k + 2 * length ms)\<rparr>)"
  using assms
proof (induction ms arbitrary: st k)
  case Nil
  then show ?case by simp
next
  case (Cons m ms)
  from Cons.prems have k: "k < 998" and m: "length m \<le> 65535" by simp_all
  note e = encryptMessage_counter[OF Cons.prems(1) k m, of env]
  have ih: "send_all env (st\<lparr>sn := counter_nonce (k + 2)\<rparr>) ms =
     Inr (map counter_nonce [k + 2..<k + 2 + 2 * length ms],
          st\<lparr>sn := counter_nonce (k + 2 + 2 * length ms)\<rparr>)"
    using Cons.IH[of "st\<lparr>sn := counter_nonce (k + 2)\<rparr>" "k + 2"] Cons.prems by simp
  have n: "k + 2 * length (m # ms) = k + 2 + 2 * length ms" by simp
  have u: "[k..<k + 2 + 2 * length ms] = k # (k + 1) # [k + 2..<k + 2 + 2 * length ms]"
    by (rule upt_two) simp
  show ?case
    by (simp only: send_all.simps e ih n u prod.case sum.case list.map append_Cons append_Nil)
qed

lemma send_all_rotate:
  assumes "sn st = counter_nonce k" and "list_all (\<lambda>m. length m \<le> 65535) ms"
    and "k + 2 * length ms = 1000" and "k \<le> 998"
  shows "send_all env st ms =
     Inr (map counter_nonce [k..<1000],
          st\<lparr>sk := drop 32 (hkdf env (ck st) (sk st)), ck := take 32 (hkdf env (ck st) (sk st)),
             sn := zero_nonce\<rparr>)"
  using assms
proof (induction ms arbitrary: st k)
  case Nil
  then show ?case by simp
next
  case (Cons m ms)
  from Cons.prems have m: "length m \<le> 65535" by simp
  show ?case
  proof (cases "ms = []")
    case True
    with Cons.prems have k: "k = 998" by simp
    from Cons.prems(1) have "sn st = counter_nonce 998" unfolding k .
    note e = encryptMessage_rotate[OF this m, of env]
    have "[998..<1000] = [998, 999::nat]" by (simp add: upt_conv_Cons)
    with e True k show ?thesis by simp
  next
    case False
    then have l: "0 < length ms" by (cases ms) simp_all
    from Cons.prems(3) have "k + 2 + 2 * length ms = 1000" by simp
    with l have k: "k < 997" by arith
    then have k: "k < 998" and k2: "k + 2 \<le> 998" by simp_all
    note e = encryptMessage_counter[OF Cons.prems(1) k m, of env]
    have ih: "send_all env (st\<lparr>sn := counter_nonce (k + 2)\<rparr>) ms =
       Inr (map counter_nonce [k + 2..<1000],
          st\<lparr>sk := drop 32 (hkdf env (ck st) (sk st)), ck := take 32 (hkdf env (ck st) (sk st)),
             sn := zero_nonce\<rparr>)"
      using Cons.IH[of "st\<lparr>sn := counter_nonce (k + 2)\<rparr>" "k + 2"] Cons.prems k2 by simp
    from k have u: "[k..<1000] = k # (k + 1) # [k + 2..<1000]"
      by (intro upt_two) simp
    show ?thesis
      by (simp only: send_all.simps e ih u prod.case sum.case list.map append_Cons append_Nil)
  qed
qed

lemma list_all_replicate: "list_all P (replicate n x) \<longleftrightarrow> n = 0 \<or> P x"
  by (auto simp: list_all_iff)

text \<open>
  C4. Every send-side step of \<open>encryptMessage\<close> (the statement after each encryption)
  writes the counter plus one into \<open>sn\<close> while the counter is below 999, and at counter 999
  (post-increment value 1000) replaces \<open>sk\<close> by the bytes from offset 32 of
  \<open>HKDF(ck, sk)\<close>, \<open>ck\<close> by its first 32 bytes and \<open>sn\<close> by twelve zero bytes. From a state
  with \<open>sn\<close> zero, sending fewer than 500 messages (each of at most 65535 bytes, two
  encryptions per message) uses the nonces with counters 0, 1, 2, ... in order and
  changes only \<open>sn\<close>; sending exactly 500 messages, that is 1000 encryptions, uses the
  counters 0 to 999 and leaves the state with \<open>sk\<close> and \<open>ck\<close> rotated once and \<open>sn\<close> back at
  zero.
\<close>

theorem sending_key_rotates_after_1000:
  "(sn st = counter_nonce k \<and> k < 999 \<longrightarrow>
       advance_sending env st = Inr (st\<lparr>sn := counter_nonce (k + 1)\<rparr>))
   \<and> (sn st = counter_nonce 999 \<longrightarrow>
       advance_sending env st =
         Inr (st\<lparr>sk := drop 32 (hkdf env (ck st) (sk st)),
                 ck := take 32 (hkdf env (ck st) (sk st)), sn := zero_nonce\<rparr>))
   \<and> (sn st = zero_nonce \<and> list_all (\<lambda>m. length m \<le> 65535) ms \<and> length ms < 500 \<longrightarrow>
       send_all env st ms =
         Inr (map counter_nonce [0..<2 * length ms], st\<lparr>sn := counter_nonce (2 * length ms)\<rparr>))
   \<and> (sn st = zero_nonce \<and> list_all (\<lambda>m. length m \<le> 65535) ms \<and> length ms = 500 \<longrightarrow>
       send_all env st ms =
         Inr (map counter_nonce [0..<1000],
              st\<lparr>sk := drop 32 (hkdf env (ck st) (sk st)),
                 ck := take 32 (hkdf env (ck st) (sk st)), sn := zero_nonce\<rparr>))"
proof (intro conjI impI)
  assume "sn st = counter_nonce k \<and> k < 999"
  then show "advance_sending env st = Inr (st\<lparr>sn := counter_nonce (k + 1)\<rparr>)"
    using advance_sending_counter by blast
next
  assume "sn st = counter_nonce 999"
  then show "advance_sending env st =
         Inr (st\<lparr>sk := drop 32 (hkdf env (ck st) (sk st)),
                 ck := take 32 (hkdf env (ck st) (sk st)), sn := zero_nonce\<rparr>)"
    by (rule advance_sending_rotate)
next
  assume a: "sn st = zero_nonce \<and> list_all (\<lambda>m. length m \<le> 65535) ms \<and> length ms < 500"
  then have "sn st = counter_nonce 0" by (simp add: counter_nonce_0)
  from send_all_counter[OF this, of ms env] a
  show "send_all env st ms =
         Inr (map counter_nonce [0..<2 * length ms], st\<lparr>sn := counter_nonce (2 * length ms)\<rparr>)"
    by simp
next
  assume a: "sn st = zero_nonce \<and> list_all (\<lambda>m. length m \<le> 65535) ms \<and> length ms = 500"
  then have "sn st = counter_nonce 0" by (simp add: counter_nonce_0)
  from send_all_rotate[OF this, of ms env] a
  show "send_all env st ms =
         Inr (map counter_nonce [0..<1000],
              st\<lparr>sk := drop 32 (hkdf env (ck st) (sk st)),
                 ck := take 32 (hkdf env (ck st) (sk st)), sn := zero_nonce\<rparr>)"
    by simp
qed


text \<open>
  On the concrete instance, from the state the initiator's act 3 leaves: 499 messages
  bring the counter to 998, two more steps rotate the key, and 500 messages do both.
\<close>

theorem sending_key_rotates_after_1000_witness:
  "\<exists>m st. initiatorAct3 toy (new_NoiseState toy [1] [2]) = Inr (m, st)
     \<and> sn st = zero_nonce
     \<and> send_all toy st (replicate 499 [7]) =
         Inr (map counter_nonce [0..<998], st\<lparr>sn := counter_nonce 998\<rparr>)
     \<and> advance_sending toy (st\<lparr>sn := counter_nonce 998\<rparr>) = Inr (st\<lparr>sn := counter_nonce 999\<rparr>)
     \<and> advance_sending toy (st\<lparr>sn := counter_nonce 999\<rparr>) =
         Inr (st\<lparr>sk := drop 32 (hkdf toy (ck st) (sk st)),
                 ck := take 32 (hkdf toy (ck st) (sk st)), sn := zero_nonce\<rparr>)
     \<and> send_all toy st (replicate 500 [7]) =
         Inr (map counter_nonce [0..<1000],
              st\<lparr>sk := drop 32 (hkdf toy (ck st) (sk st)),
                 ck := take 32 (hkdf toy (ck st) (sk st)), sn := zero_nonce\<rparr>)"
proof -
  obtain m st where a: "initiatorAct3 toy (new_NoiseState toy [1] [2]) = Inr (m, st)"
    using toy_initiatorAct3 by blast
  from initiatorAct3_result[OF a] have z: "sn st = zero_nonce" by blast
  from sending_key_rotates_after_1000[of st 0 toy "replicate 499 [7]"] z
  have s499: "send_all toy st (replicate 499 [7]) =
         Inr (map counter_nonce [0..<998], st\<lparr>sn := counter_nonce 998\<rparr>)"
    by (simp add: list_all_replicate)
  from sending_key_rotates_after_1000[of "st\<lparr>sn := counter_nonce 998\<rparr>" 998 toy "[]"]
  have s998: "advance_sending toy (st\<lparr>sn := counter_nonce 998\<rparr>) = Inr (st\<lparr>sn := counter_nonce 999\<rparr>)"
    by simp
  from sending_key_rotates_after_1000[of "st\<lparr>sn := counter_nonce 999\<rparr>" 0 toy "[]"]
  have s999: "advance_sending toy (st\<lparr>sn := counter_nonce 999\<rparr>) =
         Inr (st\<lparr>sk := drop 32 (hkdf toy (ck st) (sk st)),
                 ck := take 32 (hkdf toy (ck st) (sk st)), sn := zero_nonce\<rparr>)"
    by simp
  from sending_key_rotates_after_1000[of st 0 toy "replicate 500 [7]"] z
  have s500: "send_all toy st (replicate 500 [7]) =
         Inr (map counter_nonce [0..<1000],
              st\<lparr>sk := drop 32 (hkdf toy (ck st) (sk st)),
                 ck := take 32 (hkdf toy (ck st) (sk st)), sn := zero_nonce\<rparr>)"
    by (simp add: list_all_replicate)
  from a z s499 s998 s999 s500 show ?thesis by blast
qed


subsection \<open>The nonces of a transport\<close>

lemma advance_sending_ok:
  assumes "sn st = counter_nonce k" and "k \<le> 999"
  shows "\<exists>st' k'. advance_sending env st = Inr st' \<and> sn st' = counter_nonce k' \<and> k' \<le> 999
            \<and> rn st' = rn st"
proof (cases "k = 999")
  case True
  with assms advance_sending_rotate[of st env] counter_nonce_0 show ?thesis
    by (intro exI[of _ "st\<lparr>sk := drop 32 (hkdf env (ck st) (sk st)),
          ck := take 32 (hkdf env (ck st) (sk st)), sn := zero_nonce\<rparr>"] exI[of _ 0]) simp
next
  case False
  with assms have "k < 999" by simp
  from advance_sending_counter[OF assms(1) this, of env] \<open>k < 999\<close> show ?thesis
    by (intro exI[of _ "st\<lparr>sn := counter_nonce (k + 1)\<rparr>"] exI[of _ "k + 1"]) simp
qed

lemma advance_receiving_ok:
  assumes "rn st = counter_nonce k" and "k \<le> 999"
  shows "\<exists>st' k'. advance_receiving env st = Inr st' \<and> rn st' = counter_nonce k' \<and> k' \<le> 999
            \<and> sn st' = sn st"
proof (cases "k = 999")
  case True
  with assms advance_receiving_rotate[of st env] counter_nonce_0 show ?thesis
    by (intro exI[of _ "st\<lparr>rk := drop 32 (hkdf env (ck st) (rk st)),
          ck := take 32 (hkdf env (ck st) (rk st)), rn := zero_nonce\<rparr>"] exI[of _ 0]) simp
next
  case False
  with assms have "k < 999" by simp
  from advance_receiving_counter[OF assms(1) this, of env] \<open>k < 999\<close> show ?thesis
    by (intro exI[of _ "st\<lparr>rn := counter_nonce (k + 1)\<rparr>"] exI[of _ "k + 1"]) simp
qed

lemma advance_sending_keeps:
  assumes "counters_ok st"
  shows "\<exists>st'. advance_sending env st = Inr st' \<and> counters_ok st'"
proof -
  from assms obtain k where k: "k \<le> 999" "sn st = counter_nonce k"
    using nonce_ok_is_counter[of "sn st"] by (auto simp: counters_ok_def)
  from advance_sending_ok[OF k(2,1), of env] assms show ?thesis
    by (auto simp: counters_ok_def nonce_ok_counter)
qed

lemma advance_receiving_keeps:
  assumes "counters_ok st"
  shows "\<exists>st'. advance_receiving env st = Inr st' \<and> counters_ok st'"
proof -
  from assms obtain k where k: "k \<le> 999" "rn st = counter_nonce k"
    using nonce_ok_is_counter[of "rn st"] by (auto simp: counters_ok_def)
  from advance_receiving_ok[OF k(2,1), of env] assms show ?thesis
    by (auto simp: counters_ok_def nonce_ok_counter)
qed

lemma encryptMessage_keeps:
  assumes "counters_ok st"
  shows "counters_ok (snd (snd (encryptMessage env st m)))
       \<and> list_all nonce_ok (fst (snd (encryptMessage env st m)))
       \<and> (length m \<le> 65535 \<longrightarrow> (\<exists>out. fst (encryptMessage env st m) = Inr out)
             \<and> length (fst (snd (encryptMessage env st m))) = 2)"
proof -
  from advance_sending_keeps[OF assms, of env] obtain st1 where
    s1: "advance_sending env st = Inr st1" "counters_ok st1" by blast
  from advance_sending_keeps[OF s1(2), of env] obtain st2 where
    s2: "advance_sending env st1 = Inr st2" "counters_ok st2" by blast
  from assms s1 s2 show ?thesis
    by (simp add: encryptMessage_def Let_def counters_ok_def)
qed

lemma decryptLength_keeps:
  assumes "counters_ok st"
  shows "counters_ok (snd (snd (decryptLength env st lc)))
       \<and> fst (snd (decryptLength env st lc)) = [rn st]"
proof -
  from advance_receiving_keeps[OF assms, of env] obtain st1 where
    s1: "advance_receiving env st = Inr st1" "counters_ok st1" by blast
  from assms s1 show ?thesis
    by (simp add: decryptLength_def Let_def split: option.splits)
qed

lemma decryptMessage_keeps:
  assumes "counters_ok st"
  shows "counters_ok (snd (snd (decryptMessage env st c)))
       \<and> fst (snd (decryptMessage env st c)) = [rn st]"
proof -
  from advance_receiving_keeps[OF assms, of env] obtain st1 where
    s1: "advance_receiving env st = Inr st1" "counters_ok st1" by blast
  from assms s1 show ?thesis
    by (simp add: decryptMessage_def Let_def split: option.splits)
qed

lemma ready_counters_ok: "ready env st \<Longrightarrow> counters_ok st"
proof (induction rule: ready.induct)
  case (after_initiatorAct3 st0 m st)
  from initiatorAct3_result[OF this] show ?case
    by (auto simp: counters_ok_def counter_nonce_0[symmetric] nonce_ok_counter)
next
  case (after_receiveAct3 st0 m st)
  from receiveAct3_result[OF this] show ?case
    by (auto simp: counters_ok_def counter_nonce_0[symmetric] nonce_ok_counter)
next
  case (after_encryptMessage st m)
  then show ?case using encryptMessage_keeps by blast
next
  case (after_decryptLength st lc)
  then show ?case using decryptLength_keeps by blast
next
  case (after_decryptMessage st c)
  then show ?case using decryptMessage_keeps by blast
qed


text \<open>
  C10. In every state reached from a completed act 3 by the three transport operations,
  \<open>sn\<close> and \<open>rn\<close> are twelve bytes with a little-endian counter of at most 999 at offsets
  4 and 5 and zero elsewhere; every nonce that \<open>encryptMessage\<close> passes to the cipher has
  this shape (and for a message of at most 65535 bytes it returns, after two
  encryptions); \<open>decryptLength\<close> and \<open>decryptMessage\<close> pass the single nonce \<open>rn\<close>; and the
  increment that follows never throws and leaves a counter of at most 999, so the
  16-bit field never wraps.
\<close>

theorem transport_nonces:
  assumes "ready env st"
  shows "nonce_ok (sn st) \<and> nonce_ok (rn st)
       \<and> list_all nonce_ok (fst (snd (encryptMessage env st m)))
       \<and> (length m \<le> 65535 \<longrightarrow> (\<exists>out. fst (encryptMessage env st m) = Inr out)
             \<and> length (fst (snd (encryptMessage env st m))) = 2)
       \<and> fst (snd (decryptLength env st lc)) = [rn st]
       \<and> fst (snd (decryptMessage env st c)) = [rn st]
       \<and> (\<exists>st'. advance_sending env st = Inr st' \<and> nonce_ok (sn st'))
       \<and> (\<exists>st'. advance_receiving env st = Inr st' \<and> nonce_ok (rn st'))"
proof -
  from ready_counters_ok[OF assms] have c: "counters_ok st" .
  from advance_sending_keeps[OF c, of env] have a: "\<exists>st'. advance_sending env st = Inr st' \<and> nonce_ok (sn st')"
    by (auto simp: counters_ok_def)
  from advance_receiving_keeps[OF c, of env] have b: "\<exists>st'. advance_receiving env st = Inr st' \<and> nonce_ok (rn st')"
    by (auto simp: counters_ok_def)
  from c encryptMessage_keeps[OF c, of env m] decryptLength_keeps[OF c, of env lc]
    decryptMessage_keeps[OF c, of env c] a b
  show ?thesis by (simp add: counters_ok_def)
qed


text \<open>
  On the concrete instance: the state after act 3 and one sent message.
\<close>

theorem transport_nonces_witness:
  "\<exists>m st. initiatorAct3 toy (new_NoiseState toy [1] [2]) = Inr (m, st)
     \<and> ready toy (snd (snd (encryptMessage toy st [7])))
     \<and> nonce_ok (sn (snd (snd (encryptMessage toy st [7]))))
     \<and> nonce_ok (rn (snd (snd (encryptMessage toy st [7]))))
     \<and> list_all nonce_ok (fst (snd (encryptMessage toy (snd (snd (encryptMessage toy st [7]))) [1, 2, 3])))
     \<and> (\<exists>out. fst (encryptMessage toy (snd (snd (encryptMessage toy st [7]))) [1, 2, 3]) = Inr out)
     \<and> length (fst (snd (encryptMessage toy (snd (snd (encryptMessage toy st [7]))) [1, 2, 3]))) = 2
     \<and> fst (snd (decryptLength toy (snd (snd (encryptMessage toy st [7]))) [4]))
         = [rn (snd (snd (encryptMessage toy st [7])))]
     \<and> fst (snd (decryptMessage toy (snd (snd (encryptMessage toy st [7]))) [5]))
         = [rn (snd (snd (encryptMessage toy st [7])))]
     \<and> (\<exists>st'. advance_sending toy (snd (snd (encryptMessage toy st [7]))) = Inr st' \<and> nonce_ok (sn st'))
     \<and> (\<exists>st'. advance_receiving toy (snd (snd (encryptMessage toy st [7]))) = Inr st' \<and> nonce_ok (rn st'))"
proof -
  obtain m st where a: "initiatorAct3 toy (new_NoiseState toy [1] [2]) = Inr (m, st)"
    using toy_initiatorAct3 by blast
  then have "ready toy st" by (rule after_initiatorAct3)
  then have r: "ready toy (snd (snd (encryptMessage toy st [7])))" by (rule after_encryptMessage)
  from transport_nonces[OF r, of "[1, 2, 3]" "[4]" "[5]"] a r show ?thesis by simp
qed


end
